theory Spec2Isabelle
  imports Main "HOL-Library.AList"
begin

section \<open>Notification history (the dedup cache)\<close>

text \<open>
  \<^verbatim>\<open>const emailSentHistory = new Map<string, number>()\<close> maps a task url to the
  \<^verbatim>\<open>Date.now()\<close> of the last recorded send. A JavaScript \<^verbatim>\<open>Map\<close> keeps its keys
  distinct and in insertion order, so it is an association list with distinct keys:
  \<^verbatim>\<open>get\<close> is \<^const>\<open>map_of\<close>, \<^verbatim>\<open>set\<close> is \<^const>\<open>AList.update\<close> (overwrite in place, or
  append), \<^verbatim>\<open>delete\<close> is \<^const>\<open>AList.delete\<close>. Timestamps are milliseconds, an \<^typ>\<open>int\<close>.
  The clock (\<^verbatim>\<open>Date.now()\<close>) is an argument of every operation that reads it.
\<close>

type_synonym history = "(string \<times> int) list"

definition EMAIL_COOLDOWN_MS :: int where
  "EMAIL_COOLDOWN_MS = 30 * 60 * 1000"

definition history_ok :: "history \<Rightarrow> bool" where
  "history_ok h = distinct (map fst h)"

text \<open>
  \<^verbatim>\<open>if (!lastSent) return true\<close>: the test is JavaScript truthiness, so it holds for a
  missing key (\<^verbatim>\<open>undefined\<close>) and also for a stored timestamp \<open>0\<close>.
\<close>

definition canSendEmail :: "history \<Rightarrow> int \<Rightarrow> string \<Rightarrow> bool" where
  "canSendEmail h now url =
     (case map_of h url of
        None \<Rightarrow> True
      | Some lastSent \<Rightarrow>
          if lastSent = 0 then True
          else (let timeSinceLastSent = now - lastSent
                in timeSinceLastSent \<ge> EMAIL_COOLDOWN_MS))"

definition recordEmailSent :: "history \<Rightarrow> int \<Rightarrow> string \<Rightarrow> history" where
  "recordEmailSent h now url = AList.update url now h"

text \<open>The first pass of \<^verbatim>\<open>cleanupOldEmailHistory\<close>: the keys pushed by \<^verbatim>\<open>forEach\<close>.\<close>

definition keysToDelete :: "history \<Rightarrow> int \<Rightarrow> string list" where
  "keysToDelete h now =
     map fst (filter (\<lambda>(url, timestamp). now - timestamp \<ge> EMAIL_COOLDOWN_MS) h)"

definition cleanupOldEmailHistory :: "history \<Rightarrow> int \<Rightarrow> history" where
  "cleanupOldEmailHistory h now = fold AList.delete (keysToDelete h now) h"

text \<open>
  The reading of the dedup rule with a strict comparison (an entry blocks a send until
  its age is strictly greater than the cooldown), kept for comparison with
  \<^const>\<open>canSendEmail\<close>.
\<close>

definition canSend_strict :: "history \<Rightarrow> int \<Rightarrow> string \<Rightarrow> bool" where
  "canSend_strict h now url =
     (case map_of h url of
        None \<Rightarrow> True
      | Some lastSent \<Rightarrow> now - lastSent > EMAIL_COOLDOWN_MS)"



section \<open>Task generation\<close>

subsection \<open>The seven dates\<close>

text \<open>
  \<^verbatim>\<open>dayjs().tz('Asia/Seoul')\<close> reads the clock; of its value only the calendar date in Seoul
  reaches the program (the time of day is dropped by \<^verbatim>\<open>format('YYYYMMDD')\<close>), so that date
  is the argument of \<open>getWeekDates\<close>. Seoul has no daylight saving time: \<^verbatim>\<open>add(1, 'day')\<close>
  is the next day of the proleptic Gregorian calendar.
\<close>

record calendar_date =
  year :: nat
  month :: nat
  day :: nat

definition leap_year :: "nat \<Rightarrow> bool" where
  "leap_year y = ((y mod 4 = 0 \<and> y mod 100 \<noteq> 0) \<or> y mod 400 = 0)"

definition days_in_month :: "nat \<Rightarrow> nat \<Rightarrow> nat" where
  "days_in_month y m =
     (if m = 2 then (if leap_year y then 29 else 28)
      else if m = 4 \<or> m = 6 \<or> m = 9 \<or> m = 11 then 30 else 31)"

definition valid_date :: "calendar_date \<Rightarrow> bool" where
  "valid_date d =
     (1 \<le> month d \<and> month d \<le> 12
      \<and> 1 \<le> day d \<and> day d \<le> days_in_month (year d) (month d))"

definition add_day :: "calendar_date \<Rightarrow> calendar_date" where
  "add_day d =
     (if day d < days_in_month (year d) (month d) then d\<lparr>day := day d + 1\<rparr>
      else if month d < 12 then d\<lparr>month := month d + 1, day := 1\<rparr>
      else d\<lparr>year := year d + 1, month := 1, day := 1\<rparr>)"

definition date_less :: "calendar_date \<Rightarrow> calendar_date \<Rightarrow> bool" where
  "date_less a b =
     (year a < year b \<or> (year a = year b \<and>
        (month a < month b \<or> (month a = month b \<and> day a < day b))))"

text \<open>
  \<^verbatim>\<open>format('YYYYMMDD')\<close>: the year on at least four digits, month and day on two, each
  padded with zeros on the left.
\<close>

definition digit :: "nat \<Rightarrow> char" where
  "digit n = ''0123456789'' ! n"

fun dec :: "nat \<Rightarrow> string" where
  "dec n = (if n < 10 then [digit n] else dec (n div 10) @ [digit (n mod 10)])"

declare dec.simps [simp del]

definition padStart :: "nat \<Rightarrow> char \<Rightarrow> string \<Rightarrow> string" where
  "padStart n c s = replicate (n - length s) c @ s"

definition format_YYYYMMDD :: "calendar_date \<Rightarrow> string" where
  "format_YYYYMMDD d =
     padStart 4 (CHR ''0'') (dec (year d)) @ padStart 2 (CHR ''0'') (dec (month d))
       @ padStart 2 (CHR ''0'') (dec (day d))"

text \<open>The loop of \<^verbatim>\<open>getWeekDates\<close>: \<open>i\<close> counts from 0, \<open>dates\<close> is the array built so far.\<close>

function week_loop :: "nat \<Rightarrow> calendar_date \<Rightarrow> string list \<Rightarrow> string list" where
  "week_loop i currentDate dates =
     (if i < 7 then week_loop (i + 1) (add_day currentDate) (dates @ [format_YYYYMMDD currentDate])
      else dates)"
  by pat_completeness auto
termination
  by (relation "measure (\<lambda>(i, _, _). 7 - i)") auto

declare week_loop.simps [simp del]

definition getWeekDates :: "calendar_date \<Rightarrow> string list" where
  "getWeekDates today = week_loop 0 today []"

subsection \<open>The targets\<close>

record SearchItem =
  idx :: string

text \<open>
  \<^verbatim>\<open>envValue.split(',')\<close>: the pieces between the commas, empty pieces included.
\<close>

primrec split_on :: "char \<Rightarrow> string \<Rightarrow> string list" where
  "split_on sep [] = [[]]"
| "split_on sep (c # cs) =
     (if c = sep then [] # split_on sep cs
      else (c # hd (split_on sep cs)) # tl (split_on sep cs))"

text \<open>
  \<^verbatim>\<open>String.prototype.trim\<close> strips white space and line terminators from both ends; among
  the characters below U+0100 these are U+0009 to U+000D, U+0020 and U+00A0.
\<close>

definition is_space :: "char \<Rightarrow> bool" where
  "is_space c = ((of_char c :: nat) \<in> {9, 10, 11, 12, 13, 32, 160})"

definition trim :: "string \<Rightarrow> string" where
  "trim s = rev (dropWhile is_space (rev (dropWhile is_space s)))"

text \<open>
  The argument is the environment variable \<^verbatim>\<open>G_SEARCH_LIST\<close>, \<open>None\<close> when it is not set;
  \<^verbatim>\<open>!envValue\<close> holds for \<^verbatim>\<open>undefined\<close> and for the empty string.
\<close>

definition parseSearchList :: "string option \<Rightarrow> SearchItem list" where
  "parseSearchList envValue =
     (case envValue of
        None \<Rightarrow> []
      | Some v \<Rightarrow>
          if v = [] then []
          else map (\<lambda>i. \<lparr>idx = i\<rparr>)
                 (filter (\<lambda>i. length i > 0) (map trim (split_on (CHR '','') v))))"

subsection \<open>The tasks of a cycle\<close>

record SearchTask = SearchItem +
  date :: string
  url :: string

definition DPSNNN_G_URL :: string where
  "DPSNNN_G_URL = ''https://www.dpsnnn.com/reserve_g''"

definition task_url :: "string \<Rightarrow> string \<Rightarrow> string" where
  "task_url i d = DPSNNN_G_URL @ ''?idx='' @ i @ ''&day='' @ d @ ''&endDay='' @ d"

text \<open>The two nested \<^verbatim>\<open>for ... of\<close> loops that fill \<^verbatim>\<open>searchTasks\<close>.\<close>

definition searchTasks_of :: "SearchItem list \<Rightarrow> string list \<Rightarrow> SearchTask list" where
  "searchTasks_of gSearchList weekDates =
     concat (map (\<lambda>item. map (\<lambda>date.
        \<lparr>idx = idx item, date = date, url = task_url (idx item) date\<rparr>) weekDates) gSearchList)"

text \<open>Reading a formatted date back, to state that formatting loses nothing.\<close>

definition undec :: "string \<Rightarrow> nat" where
  "undec s = foldl (\<lambda>a c. 10 * a + (of_char c - 48)) 0 s"

definition parse_YYYYMMDD :: "string \<Rightarrow> calendar_date" where
  "parse_YYYYMMDD s =
     \<lparr>year = undec (take (length s - 4) s),
      month = undec (take 2 (drop (length s - 4) s)),
      day = undec (drop (length s - 2) s)\<rparr>"
section \<open>The reservation probe\<close>

subsection \<open>Page text and markers\<close>

text \<open>
  Text read from the page is a JavaScript string: a list of UTF-16 code units.
  \<^verbatim>\<open>String.prototype.includes\<close> is contiguous containment of code units. The three
  markers are the literals of the source, written as their code units.
\<close>

type_synonym jstring = "nat list"

definition of_ascii :: "string \<Rightarrow> jstring" where
  "of_ascii s = map of_char s"

fun js_includes :: "jstring \<Rightarrow> jstring \<Rightarrow> bool" where
  "js_includes [] m = (m = [])"
| "js_includes (c # s) m = (take (length m) (c # s) = m \<or> js_includes s m)"

text \<open>The literal of the first search, U+C608 U+C57D U+D558 U+AE30 (``reserve now'').\<close>

definition RESERVE_BUTTON_TEXT :: jstring where
  "RESERVE_BUTTON_TEXT = [0xC608, 0xC57D, 0xD558, 0xAE30]"

text \<open>The two literals of the second search: U+BE44 U+D68C U+C6D0 (``non-member'') and
  U+C608 U+C57D (``reserve''), a proper prefix of the first literal.\<close>

definition NON_MEMBER_TEXT :: jstring where
  "NON_MEMBER_TEXT = [0xBE44, 0xD68C, 0xC6D0]"

definition RESERVE_TEXT :: jstring where
  "RESERVE_TEXT = [0xC608, 0xC57D]"

definition maxReserveButtonAttempts :: nat where
  "maxReserveButtonAttempts = 5"

definition maxNonMemberButtonAttempts :: nat where
  "maxNonMemberButtonAttempts = 5"

subsection \<open>The scripted page\<close>

text \<open>
  The browser is outside the program, so a probe runs against a script of what its page
  does. Every awaited browser call is a \<^emph>\<open>call\<close>; the script says which calls reject
  (throw at the \<^verbatim>\<open>await\<close>), and what the page shows at each attempt. The numbers in a
  call are the attempt (from 1) and, for an element, its index in the queried list.
\<close>

datatype call =
    NewPage
  | Goto string
  | SetViewport
  | QueryAnchors nat
  | EvalText nat nat
  | ClickReserve nat nat
  | EvalDetail
  | Reload nat
  | Content
  | EvalNonMember nat
  | SendMail
  | ClosePage

text \<open>
  The dialog listener is installed after navigation. A dialog can fire while the probe
  waits in any later phase: while it locates and clicks the reservation entry point,
  while it locates and clicks the non-member control (the 500 ms wait and the search),
  during the first 1000 ms wait, or during the second 1000 ms wait.
\<close>

datatype phase = Locating | Engaging | FirstSettle | SecondSettle

record element =
  textContent :: jstring
  isHTMLElement :: bool

text \<open>
  \<open>anchors a\<close> is, for attempt \<open>a\<close>, the value of \<^verbatim>\<open>el.textContent?.trim() || ''\<close> for
  each element of \<^verbatim>\<open>page.$$('a')\<close>; \<open>clickables a\<close> lists the elements of
  \<^verbatim>\<open>document.querySelectorAll('a, button')\<close> with their trimmed text;
  \<open>detail\<close> is the trimmed text of \<^verbatim>\<open>.booking_content_detail > div\<close> when that element
  exists; \<open>currentUrl\<close> and \<open>newUrl\<close> are \<^verbatim>\<open>page.url()\<close> after navigation and after the
  second wait.
\<close>

record page_script =
  rejects :: "call \<Rightarrow> bool"
  currentUrl :: string
  anchors :: "nat \<Rightarrow> jstring list"
  detail :: "jstring option"
  content :: jstring
  clickables :: "nat \<Rightarrow> element list"
  dialog :: "phase \<Rightarrow> bool"
  newUrl :: string

text \<open>
  The five ways a probe ends. The source has no result value (the function returns
  \<^verbatim>\<open>void\<close>); an outcome stands for the branch whose final message is logged:
  redirect detected, alert seen, no redirect or no non-member control, entry point never
  found, and exception caught by the \<^verbatim>\<open>catch\<close>.
\<close>

datatype outcome = Available jstring | Unavailable | Inconclusive | PageError | Caught

text \<open>
  What a probe does, in order: the awaited calls, the fixed waits (in ms), the click made
  inside the page on the non-member control (attempt, index of the element), the markup
  and the final message logged, the call of \<^verbatim>\<open>sendEmail\<close> (url, name), the recorded send
  (url, timestamp), the send skipped within the cooldown, and the settling of the
  promise that \<^verbatim>\<open>checkReservation\<close> returned (\<open>Resolved\<close>, or \<open>Thrown\<close> when an exception
  left the function).
\<close>

datatype event =
    Call call
  | Delay nat
  | PageClick nat nat
  | LogHtml jstring
  | LogOutcome outcome
  | Notify string jstring
  | Recorded string int
  | Skipped string
  | Resolved
  | Thrown

subsection \<open>Sequencing with exceptions and a trace\<close>

text \<open>
  A computation yields the events it performed and either a value or \<open>None\<close> when an
  awaited call rejected (the exception then travels to the \<^verbatim>\<open>catch\<close>).
\<close>

type_synonym 'a io = "event list \<times> 'a option"

definition ret :: "'a \<Rightarrow> 'a io" where
  "ret a = ([], Some a)"

definition emit :: "event \<Rightarrow> unit io" where
  "emit e = ([e], Some ())"

definition await :: "page_script \<Rightarrow> call \<Rightarrow> unit io" where
  "await ps c = ([Call c], if rejects ps c then None else Some ())"

definition bind :: "'a io \<Rightarrow> ('a \<Rightarrow> 'b io) \<Rightarrow> 'b io" where
  "bind m f =
     (case m of
        (es, None) \<Rightarrow> (es, None)
      | (es, Some a) \<Rightarrow> (case f a of (es', r) \<Rightarrow> (es @ es', r)))"

subsection \<open>Locating the reservation entry point\<close>

text \<open>
  The inner \<^verbatim>\<open>for (const button of reserveButtons)\<close>: the first anchor whose text
  contains the marker is clicked and the detail text is read; \<open>k\<close> is the index of the
  anchor at hand.
\<close>

fun scan_buttons :: "page_script \<Rightarrow> nat \<Rightarrow> nat \<Rightarrow> jstring list \<Rightarrow> jstring option io" where
  "scan_buttons ps attempt k [] = ret None"
| "scan_buttons ps attempt k (buttonText # rest) =
     bind (await ps (EvalText attempt k)) (\<lambda>_.
       if js_includes buttonText RESERVE_BUTTON_TEXT then
         bind (await ps (ClickReserve attempt k)) (\<lambda>_.
         bind (await ps EvalDetail) (\<lambda>_.
           ret (Some (case detail ps of None \<Rightarrow> [] | Some t \<Rightarrow> t))))
       else scan_buttons ps attempt (k + 1) rest)"

function reserve_loop :: "page_script \<Rightarrow> nat \<Rightarrow> jstring option io" where
  "reserve_loop ps attempt =
     (if attempt \<le> maxReserveButtonAttempts then
        bind (await ps (QueryAnchors attempt)) (\<lambda>_.
        bind (scan_buttons ps attempt 0 (anchors ps attempt)) (\<lambda>found.
          case found of
            Some bookingName \<Rightarrow> ret (Some bookingName)
          | None \<Rightarrow>
              if attempt < maxReserveButtonAttempts then
                bind (await ps (Reload attempt)) (\<lambda>_.
                bind (emit (Delay 500)) (\<lambda>_.
                  reserve_loop ps (attempt + 1)))
              else reserve_loop ps (attempt + 1)))
      else ret None)"
  by pat_completeness auto
termination
  by (relation "measure (\<lambda>(ps, attempt). Suc maxReserveButtonAttempts - attempt)") auto

declare reserve_loop.simps [simp del]

subsection \<open>Locating and clicking the non-member control\<close>

definition is_non_member_button :: "element \<Rightarrow> bool" where
  "is_non_member_button btn =
     (js_includes (textContent btn) NON_MEMBER_TEXT \<and> js_includes (textContent btn) RESERVE_TEXT)"

definition first_index :: "('a \<Rightarrow> bool) \<Rightarrow> 'a list \<Rightarrow> nat" where
  "first_index P xs = length (takeWhile (\<lambda>x. \<not> P x) xs)"

text \<open>
  The function evaluated in the page: \<^verbatim>\<open>buttons.find(...)\<close>, then a click when the
  element found is an \<^verbatim>\<open>HTMLElement\<close>.
\<close>

definition evaluate_non_member :: "nat \<Rightarrow> element list \<Rightarrow> bool io" where
  "evaluate_non_member attempt buttons =
     (case find is_non_member_button buttons of
        Some button \<Rightarrow>
          if isHTMLElement button then
            bind (emit (PageClick attempt (first_index is_non_member_button buttons))) (\<lambda>_.
              ret True)
          else ret False
      | None \<Rightarrow> ret False)"

function non_member_loop :: "page_script \<Rightarrow> nat \<Rightarrow> bool io" where
  "non_member_loop ps attempt =
     (if attempt \<le> maxNonMemberButtonAttempts then
        bind (await ps (EvalNonMember attempt)) (\<lambda>_.
        bind (evaluate_non_member attempt (clickables ps attempt)) (\<lambda>nonMemberButtonClicked.
          if nonMemberButtonClicked then ret True
          else if attempt < maxNonMemberButtonAttempts then
            bind (emit (Delay 500)) (\<lambda>_. non_member_loop ps (attempt + 1))
          else non_member_loop ps (attempt + 1)))
      else ret False)"
  by pat_completeness auto
termination
  by (relation "measure (\<lambda>(ps, attempt). Suc maxNonMemberButtonAttempts - attempt)") auto

declare non_member_loop.simps [simp del]

subsection \<open>The protocol on the page\<close>

text \<open>
  \<^verbatim>\<open>alertAppeared\<close> when it is read, after the first 1000 ms wait: the listener sets it
  whenever a dialog fires, and nothing resets it.
\<close>

definition alertAppeared :: "page_script \<Rightarrow> bool" where
  "alertAppeared ps = (dialog ps Locating \<or> dialog ps Engaging \<or> dialog ps FirstSettle)"

datatype verdict = NotFound | NoNonMember | Alert | NoRedirect | Redirected jstring

text \<open>
  The body of the \<^verbatim>\<open>try\<close> up to the point where the history is consulted. Every wait in
  it touches the task's own page only. When the entry point is never found, the failure
  is logged before the markup is read; the other final messages are logged last (see
  \<open>after_page\<close> below).
\<close>

definition probe_page :: "page_script \<Rightarrow> SearchTask \<Rightarrow> verdict io" where
  "probe_page ps task =
     bind (await ps (Goto (url task))) (\<lambda>_.
     bind (await ps SetViewport) (\<lambda>_.
     bind (reserve_loop ps 1) (\<lambda>found.
       case found of
         None \<Rightarrow>
           bind (emit (LogOutcome PageError)) (\<lambda>_.
           bind (await ps Content) (\<lambda>_.
           bind (emit (LogHtml (content ps))) (\<lambda>_.
             ret NotFound)))
       | Some bookingName \<Rightarrow>
           bind (emit (Delay 500)) (\<lambda>_.
           bind (non_member_loop ps 1) (\<lambda>nonMemberButtonClicked.
             if \<not> nonMemberButtonClicked then ret NoNonMember
             else
               bind (emit (Delay 1000)) (\<lambda>_.
                 if alertAppeared ps then ret Alert
                 else
                   bind (emit (Delay 1000)) (\<lambda>_.
                     if currentUrl ps \<noteq> newUrl ps then ret (Redirected bookingName)
                     else ret NoRedirect)))))))"

fun outcome_of :: "verdict \<Rightarrow> outcome" where
  "outcome_of NotFound = PageError"
| "outcome_of NoNonMember = Inconclusive"
| "outcome_of Alert = Unavailable"
| "outcome_of NoRedirect = Inconclusive"
| "outcome_of (Redirected bookingName) = Available bookingName"

subsection \<open>One call of \<^verbatim>\<open>checkReservation\<close>, segment by segment\<close>

text \<open>
  \<^verbatim>\<open>dayjs(task.date, 'YYYYMMDD').format('YYYY-MM-DD')\<close> on the eight digits that
  \<^const>\<open>getWeekDates\<close> produces.
\<close>

definition formattedDate :: "string \<Rightarrow> string" where
  "formattedDate d = take 4 d @ ''-'' @ take 2 (drop 4 d) @ ''-'' @ drop 6 d"

definition email_name :: "SearchTask \<Rightarrow> jstring \<Rightarrow> jstring" where
  "email_name task bookingName = of_ascii (formattedDate (date task) @ '' / '') @ bookingName"

text \<open>
  JavaScript runs a call of \<^verbatim>\<open>checkReservation\<close> in segments: a segment runs without
  interruption up to the next \<^verbatim>\<open>await\<close>, where other tasks may run. The waits on the
  task's own page are folded into one segment (\<^const>\<open>probe_page\<close>); the waits around the
  shared history are kept apart. A task is suspended
  \<^item> \<open>Opening\<close>: at \<^verbatim>\<open>await browser.newPage()\<close>;
  \<^item> \<open>Sending\<close>: at \<^verbatim>\<open>await sendEmail(...)\<close>, after \<^const>\<open>canSendEmail\<close> held;
  \<^item> \<open>Closing\<close>: at \<^verbatim>\<open>await page.close()\<close> in the \<^verbatim>\<open>finally\<close>;
  \<^item> \<open>Cooling\<close>: at the last \<^verbatim>\<open>await delay(1000)\<close>;
  and it ends \<open>Finished\<close> (the promise resolved) or \<open>Rejected\<close> (it rejected: an exception
  left the function).
\<close>

datatype task_state =
    Opening
  | Sending outcome
  | Closing outcome
  | Cooling outcome
  | Finished outcome
  | Rejected

text \<open>The segment that starts when the page has been opened; \<open>now\<close> is \<^verbatim>\<open>Date.now()\<close>.\<close>

definition after_page ::
  "page_script \<Rightarrow> SearchTask \<Rightarrow> int \<Rightarrow> history \<Rightarrow> history \<times> task_state \<times> event list" where
  "after_page ps task now h =
     (case probe_page ps task of
        (es, None) \<Rightarrow> (h, Closing Caught, es @ [LogOutcome Caught, Call ClosePage])
      | (es, Some (Redirected bookingName)) \<Rightarrow>
          if canSendEmail h now (url task) then
            (h, Sending (Available bookingName),
             es @ [LogOutcome (Available bookingName),
                   Notify (url task) (email_name task bookingName), Call SendMail])
          else
            (h, Closing (Available bookingName),
             es @ [LogOutcome (Available bookingName), Skipped (url task), Call ClosePage])
      | (es, Some NotFound) \<Rightarrow> (h, Closing PageError, es @ [Call ClosePage])
      | (es, Some v) \<Rightarrow>
          (h, Closing (outcome_of v), es @ [LogOutcome (outcome_of v), Call ClosePage]))"

text \<open>Resuming a suspended task at clock value \<open>now\<close>: one segment.\<close>

fun resume ::
  "page_script \<Rightarrow> SearchTask \<Rightarrow> int \<Rightarrow> history \<Rightarrow> task_state
     \<Rightarrow> history \<times> task_state \<times> event list" where
  "resume ps task now h Opening =
     (if rejects ps NewPage then (h, Rejected, [Thrown]) else after_page ps task now h)"
| "resume ps task now h (Sending out) =
     (if rejects ps SendMail then (h, Closing out, [LogOutcome Caught, Call ClosePage])
      else (recordEmailSent h now (url task), Closing out,
            [Recorded (url task) now, Call ClosePage]))"
| "resume ps task now h (Closing out) =
     (if rejects ps ClosePage then (h, Rejected, [Thrown]) else (h, Cooling out, [Delay 1000]))"
| "resume ps task now h (Cooling out) = (h, Finished out, [Resolved])"
| "resume ps task now h (Finished out) = (h, Finished out, [])"
| "resume ps task now h Rejected = (h, Rejected, [])"

text \<open>
  A call that runs with no other task in between: the page segment at clock value
  \<open>tc\<close>, the segment after the send at \<open>tr\<close>, then the close and the last wait.
\<close>

definition checkReservation ::
  "page_script \<Rightarrow> SearchTask \<Rightarrow> int \<Rightarrow> int \<Rightarrow> history \<Rightarrow> history \<times> task_state \<times> event list" where
  "checkReservation ps task tc tr h =
     (case resume ps task tc h Opening of (h1, s1, e1) \<Rightarrow>
      case (case s1 of Sending out \<Rightarrow> resume ps task tr h1 s1 | _ \<Rightarrow> (h1, s1, []))
        of (h2, s2, e2) \<Rightarrow>
      case resume ps task tr h2 s2 of (h3, s3, e3) \<Rightarrow>
      case resume ps task tr h3 s3 of (h4, s4, e4) \<Rightarrow>
        (h4, s4, Call NewPage # e1 @ e2 @ e3 @ e4))"

subsection \<open>Describing what a script lets the probe find\<close>

text \<open>
  The following predicates and event lists are used to state what the probe does on a
  script; they are not part of the program.
\<close>

definition no_rejects :: "page_script \<Rightarrow> bool" where
  "no_rejects ps = (\<forall>c. \<not> rejects ps c)"

definition has_reserve_text :: "jstring \<Rightarrow> bool" where
  "has_reserve_text t = js_includes t RESERVE_BUTTON_TEXT"

text \<open>
  The events of an attempt that finds no entry point: the query, one text read per
  anchor and, before the last attempt only, the reload and the 500 ms wait.
\<close>

definition missed_attempt :: "page_script \<Rightarrow> nat \<Rightarrow> event list" where
  "missed_attempt ps a =
     Call (QueryAnchors a) # map (\<lambda>k. Call (EvalText a k)) [0..<length (anchors ps a)]
       @ (if a < maxReserveButtonAttempts then [Call (Reload a), Delay 500] else [])"

text \<open>No anchor of attempt \<open>a\<close> carries the marker.\<close>

definition entry_missing :: "page_script \<Rightarrow> nat \<Rightarrow> bool" where
  "entry_missing ps a = (\<forall>t \<in> set (anchors ps a). \<not> has_reserve_text t)"

text \<open>No anchor of any of the attempts carries the marker.\<close>

definition entry_never_found :: "page_script \<Rightarrow> bool" where
  "entry_never_found ps = (\<forall>b \<in> {1..maxReserveButtonAttempts}. entry_missing ps b)"

text \<open>
  The entry point first shows at attempt \<open>a\<close>, and anchor \<open>k\<close> is the first one of that
  attempt that carries the marker.
\<close>

definition entry_found :: "page_script \<Rightarrow> nat \<Rightarrow> nat \<Rightarrow> bool" where
  "entry_found ps a k =
     (1 \<le> a \<and> a \<le> maxReserveButtonAttempts
      \<and> (\<forall>b \<in> {1..<a}. entry_missing ps b)
      \<and> k < length (anchors ps a)
      \<and> has_reserve_text (anchors ps a ! k)
      \<and> (\<forall>t \<in> set (take k (anchors ps a)). \<not> has_reserve_text t))"

definition locate_events :: "page_script \<Rightarrow> nat \<Rightarrow> nat \<Rightarrow> event list" where
  "locate_events ps a k =
     concat (map (missed_attempt ps) [1..<a])
       @ Call (QueryAnchors a) # map (\<lambda>j. Call (EvalText a j)) [0..<Suc k]
       @ [Call (ClickReserve a k), Call EvalDetail]"

text \<open>An attempt at the non-member control clicks iff the first element whose text
  carries both markers is an \<^verbatim>\<open>HTMLElement\<close>.\<close>

definition non_member_clicks :: "element list \<Rightarrow> bool" where
  "non_member_clicks buttons =
     (case find is_non_member_button buttons of
        Some button \<Rightarrow> isHTMLElement button
      | None \<Rightarrow> False)"

definition missed_non_member :: "nat \<Rightarrow> event list" where
  "missed_non_member a =
     Call (EvalNonMember a) # (if a < maxNonMemberButtonAttempts then [Delay 500] else [])"

text \<open>The non-member control is first clicked at attempt \<open>b\<close>.\<close>

definition non_member_found :: "page_script \<Rightarrow> nat \<Rightarrow> bool" where
  "non_member_found ps b =
     (1 \<le> b \<and> b \<le> maxNonMemberButtonAttempts
      \<and> (\<forall>c \<in> {1..<b}. \<not> non_member_clicks (clickables ps c))
      \<and> non_member_clicks (clickables ps b))"

text \<open>No attempt clicks the non-member control.\<close>

definition non_member_never_clicked :: "page_script \<Rightarrow> bool" where
  "non_member_never_clicked ps =
     (\<forall>c \<in> {1..maxNonMemberButtonAttempts}. \<not> non_member_clicks (clickables ps c))"

definition engage_events :: "page_script \<Rightarrow> nat \<Rightarrow> event list" where
  "engage_events ps b =
     concat (map missed_non_member [1..<b])
       @ [Call (EvalNonMember b),
          PageClick b (first_index is_non_member_button (clickables ps b))]"

definition bookingName_of :: "page_script \<Rightarrow> jstring" where
  "bookingName_of ps = (case detail ps of None \<Rightarrow> [] | Some d \<Rightarrow> d)"

text \<open>Events by which a probe goes beyond looking for the entry point: a click, the
  search for the non-member control, a notification, a recorded send.\<close>

fun engages :: "event \<Rightarrow> bool" where
  "engages (Call (ClickReserve a k)) = True"
| "engages (Call (EvalNonMember a)) = True"
| "engages (Call SendMail) = True"
| "engages (PageClick a k) = True"
| "engages (Notify u n) = True"
| "engages (Recorded u t) = True"
| "engages e = False"

text \<open>The whole trace of a probe that never finds the entry point.\<close>

definition exhausted_events :: "page_script \<Rightarrow> SearchTask \<Rightarrow> event list" where
  "exhausted_events ps task =
     [Call NewPage, Call (Goto (url task)), Call SetViewport]
       @ concat (map (missed_attempt ps) [1..<Suc maxReserveButtonAttempts])
       @ [LogOutcome PageError, Call Content, LogHtml (content ps), Call ClosePage, Delay 1000,
          Resolved]"

text \<open>An event that is an awaited call which the script rejects.\<close>

fun rejected :: "page_script \<Rightarrow> event \<Rightarrow> bool" where
  "rejected ps (Call c) = rejects ps c"
| "rejected ps e = False"

text \<open>
  A computation that performs the events \<open>es\<close> and yields \<open>v\<close> when no call rejects, cut at
  the first call that rejects: the events up to and including that call, and the
  exception.
\<close>

definition until_reject :: "page_script \<Rightarrow> event list \<Rightarrow> 'a \<Rightarrow> 'a io" where
  "until_reject ps es v =
     (case dropWhile (\<lambda>e. \<not> rejected ps e) es of
        [] \<Rightarrow> (es, Some v)
      | e # rest \<Rightarrow> (takeWhile (\<lambda>e. \<not> rejected ps e) es @ [e], None))"

text \<open>What the protocol on the page does when the entry point never shows and no call
  rejects.\<close>

definition search_events :: "page_script \<Rightarrow> SearchTask \<Rightarrow> event list" where
  "search_events ps task =
     [Call (Goto (url task)), Call SetViewport]
       @ concat (map (missed_attempt ps) [1..<Suc maxReserveButtonAttempts])
       @ [LogOutcome PageError, Call Content, LogHtml (content ps)]"

text \<open>
  The end and the whole trace of a probe that never finds the entry point, whatever
  rejects: the call stops at \<^verbatim>\<open>newPage\<close> when that rejects; otherwise the protocol on the
  page is cut at its first rejected call, the exception is caught and logged, and the
  page is closed.
\<close>

definition exhausted_run :: "page_script \<Rightarrow> SearchTask \<Rightarrow> task_state \<times> event list" where
  "exhausted_run ps task =
     (if rejects ps NewPage then (Rejected, [Call NewPage, Thrown])
      else
        (case until_reject ps (search_events ps task) NotFound of
           (es, r) \<Rightarrow>
             ((if rejects ps ClosePage then Rejected
               else Finished (case r of None \<Rightarrow> Caught | Some v \<Rightarrow> PageError)),
              Call NewPage # es @ (case r of None \<Rightarrow> [LogOutcome Caught] | Some v \<Rightarrow> [])
                @ Call ClosePage
                # (if rejects ps ClosePage then [Thrown] else [Delay 1000, Resolved]))))"

text \<open>The whole trace of a probe that clicks the entry point at attempt \<open>a\<close>, anchor \<open>k\<close>,
  and never gets to click the non-member control.\<close>

definition stalled_events :: "page_script \<Rightarrow> SearchTask \<Rightarrow> nat \<Rightarrow> nat \<Rightarrow> event list" where
  "stalled_events ps task a k =
     [Call NewPage, Call (Goto (url task)), Call SetViewport]
       @ locate_events ps a k @ [Delay 500]
       @ concat (map missed_non_member [1..<Suc maxNonMemberButtonAttempts])
       @ [LogOutcome Inconclusive, Call ClosePage, Delay 1000, Resolved]"

text \<open>Events that notify, record a send or capture the page markup.\<close>

fun reports :: "event \<Rightarrow> bool" where
  "reports (Call SendMail) = True"
| "reports (Call Content) = True"
| "reports (Notify u n) = True"
| "reports (Recorded u t) = True"
| "reports (LogHtml c) = True"
| "reports e = False"

text \<open>The calls of \<^verbatim>\<open>sendEmail\<close> in a trace.\<close>

fun is_notify :: "event \<Rightarrow> bool" where
  "is_notify (Notify u n) = True"
| "is_notify e = False"

definition notifications :: "event list \<Rightarrow> event list" where
  "notifications es = filter is_notify es"

subsection \<open>Example scripts\<close>

text \<open>A page on which nothing rejects, nothing is found, no dialog fires and the url
  stays the same.\<close>

definition blank_page :: page_script where
  "blank_page =
     \<lparr>rejects = (\<lambda>c. False), currentUrl = ''https://www.dpsnnn.com/reserve_g'',
      anchors = (\<lambda>a. [of_ascii ''menu'']), detail = None, content = of_ascii ''<html></html>'',
      clickables = (\<lambda>a. [\<lparr>textContent = of_ascii ''menu'', isHTMLElement = True\<rparr>]),
      dialog = (\<lambda>p. False), newUrl = ''https://www.dpsnnn.com/reserve_g''\<rparr>"

text \<open>
  A page whose entry point shows at the third attempt as the second anchor, whose
  non-member control shows at the second attempt as the second element, and which then
  moves to another url.
\<close>

definition bookable_page :: page_script where
  "bookable_page =
     blank_page
      \<lparr>anchors := (\<lambda>a. if a = 3 then [of_ascii ''menu'', RESERVE_BUTTON_TEXT] else [of_ascii ''menu'']),
       detail := Some (of_ascii ''Room A''),
       clickables := (\<lambda>a. if a = 2
          then [\<lparr>textContent = of_ascii ''menu'', isHTMLElement = True\<rparr>,
                \<lparr>textContent = NON_MEMBER_TEXT @ of_ascii '' '' @ RESERVE_TEXT, isHTMLElement = True\<rparr>]
          else [\<lparr>textContent = of_ascii ''menu'', isHTMLElement = True\<rparr>]),
       newUrl := ''https://www.dpsnnn.com/booking''\<rparr>"

text \<open>The same page when the click on the non-member control raises an alert at once
  (while the probe is still in the search that clicked), and no dialog fires later.\<close>

definition refused_page :: page_script where
  "refused_page = bookable_page\<lparr>dialog := (\<lambda>p. p = Engaging)\<rparr>"

text \<open>
  A page with the entry point at the first attempt, on which the first element carrying
  both markers is an SVG anchor (not an \<^verbatim>\<open>HTMLElement\<close>) and the second one is an HTML
  button, at every attempt.
\<close>

definition svg_first_page :: page_script where
  "svg_first_page =
     blank_page
      \<lparr>anchors := (\<lambda>a. [RESERVE_BUTTON_TEXT]),
       clickables := (\<lambda>a.
          [\<lparr>textContent = NON_MEMBER_TEXT @ of_ascii '' '' @ RESERVE_TEXT, isHTMLElement = False\<rparr>,
           \<lparr>textContent = NON_MEMBER_TEXT @ of_ascii '' '' @ RESERVE_TEXT, isHTMLElement = True\<rparr>])\<rparr>"

definition example_task :: SearchTask where
  "example_task =
     \<lparr>idx = ''5'', date = ''20240226'',
      url = ''https://www.dpsnnn.com/reserve_g?idx=5&day=20240226&endDay=20240226''\<rparr>"

text \<open>The bookable page without any non-member control.\<close>

definition stalled_page :: page_script where
  "stalled_page =
     bookable_page\<lparr>clickables := (\<lambda>a. [\<lparr>textContent = of_ascii ''menu'', isHTMLElement = True\<rparr>])\<rparr>"

text \<open>A page whose navigation fails (\<^verbatim>\<open>page.goto\<close> rejects).\<close>

definition unreachable_page :: page_script where
  "unreachable_page = blank_page\<lparr>rejects := (\<lambda>c. case c of Goto u \<Rightarrow> True | _ \<Rightarrow> False)\<rparr>"


text \<open>The bookable page when the mail cannot be sent (\<^verbatim>\<open>sendMail\<close> rejects).\<close>

definition send_fails_page :: page_script where
  "send_fails_page = bookable_page\<lparr>rejects := (\<lambda>c. c = SendMail)\<rparr>"

text \<open>The blank page when its markup cannot be read (\<^verbatim>\<open>page.content\<close> rejects).\<close>

definition markup_fails_page :: page_script where
  "markup_fails_page = blank_page\<lparr>rejects := (\<lambda>c. c = Content)\<rparr>"

text \<open>The blank page when the first reload fails (\<^verbatim>\<open>page.reload\<close> rejects).\<close>

definition reload_fails_page :: page_script where
  "reload_fails_page = blank_page\<lparr>rejects := (\<lambda>c. c = Reload 1)\<rparr>"

section \<open>The batch scheduler and the cycle\<close>

text \<open>\<^verbatim>\<open>const CONCURRENT_LIMIT = 7\<close>. The scheduler below takes the limit as an argument
  \<open>K\<close>, so that other limits can be stated; the program runs it at \<^verbatim>\<open>CONCURRENT_LIMIT\<close>.\<close>

definition CONCURRENT_LIMIT :: nat where
  "CONCURRENT_LIMIT = 7"

text \<open>\<^verbatim>\<open>searchTasks.slice(i, i + K)\<close> for \<open>0 \<le> i \<le> j\<close>.\<close>

definition slice :: "'a list \<Rightarrow> nat \<Rightarrow> nat \<Rightarrow> 'a list" where
  "slice xs i j = take (j - i) (drop i xs)"

text \<open>
  What one cycle of the main loop does, in order. \<open>Task n e\<close> is event \<open>e\<close> of the task
  at position \<open>n\<close> (from 0) of the task list.
\<close>

datatype entry =
    CycleStart nat
  | Cleanup int
  | WeekDates "string list"
  | Launch
  | Task nat event
  | CycleCompleted nat
  | CloseBrowser
  | CycleEnd nat
  | CycleError nat

text \<open>
  The surroundings of one cycle: the calendar date in Asia/Seoul, \<^verbatim>\<open>Date.now()\<close> when
  the history is cleaned, whether \<^verbatim>\<open>puppeteer.launch\<close> and \<^verbatim>\<open>browser.close\<close> reject, the
  script of the page of every task, and, for the batch that starts at position \<open>i\<close>, the
  order in which its suspended tasks are resumed (position in the batch, \<^verbatim>\<open>Date.now()\<close>
  at the resumption). The event loop decides that order; the program does not.
\<close>

record world =
  seoul_today :: calendar_date
  cleanup_now :: int
  launch_rejects :: bool
  browser_close_rejects :: bool
  pages :: "nat \<Rightarrow> page_script"
  resumptions :: "nat \<Rightarrow> (nat \<times> int) list"

text \<open>How an awaited promise ends: it resolves, it rejects, or it never settles.\<close>

datatype completion = Returned | Threw | Hung

fun is_finished :: "task_state \<Rightarrow> bool" where
  "is_finished (Finished out) = True"
| "is_finished s = False"

text \<open>
  \<^verbatim>\<open>await Promise.all(batchPromises)\<close>: the tasks of the batch are resumed one segment at
  a time in the order of the world, until all have finished (the promise resolves) or
  one has rejected (the promise rejects at once, and the cycle stops waiting for the
  others: they are left running unawaited, and the model follows them no further).
\<close>

fun run_resumptions ::
  "world \<Rightarrow> SearchTask list \<Rightarrow> nat \<Rightarrow> (nat \<times> int) list
     \<Rightarrow> history \<times> task_state list \<times> entry list \<Rightarrow> history \<times> task_state list \<times> entry list" where
  "run_resumptions w batch i [] s = s"
| "run_resumptions w batch i ((k, now) # rest) (h, sts, log) =
     (if Rejected \<in> set sts \<or> list_all is_finished sts then (h, sts, log)
      else if k < length batch then
        (case resume (pages w (i + k)) (batch ! k) now h (sts ! k) of
           (h', st', es) \<Rightarrow>
             run_resumptions w batch i rest (h', sts[k := st'], log @ map (Task (i + k)) es))
      else run_resumptions w batch i rest (h, sts, log))"

text \<open>
  One batch: \<^verbatim>\<open>batch.map(...)\<close> calls \<^verbatim>\<open>checkReservation\<close> for each task in order, each call
  running up to its \<^verbatim>\<open>await browser.newPage()\<close>; then the promises are awaited.
\<close>

definition run_batch ::
  "world \<Rightarrow> SearchTask list \<Rightarrow> nat \<Rightarrow> history \<times> entry list
     \<Rightarrow> history \<times> completion \<times> entry list" where
  "run_batch w batch i s =
     (case run_resumptions w batch i (resumptions w i)
             (fst s, replicate (length batch) Opening,
              snd s @ map (\<lambda>k. Task (i + k) (Call NewPage)) [0..<length batch]) of
        (h', sts, log') \<Rightarrow>
          (h', (if Rejected \<in> set sts then Threw
                else if list_all is_finished sts then Returned else Hung), log'))"

text \<open>
  \<^verbatim>\<open>for (let i = 0; i < searchTasks.length; i += K)\<close>. With \<open>K = 0\<close> the loop never ends, so
  the result is optional: \<open>None\<close> when the loop does not end.
\<close>

partial_function (option) batch_loop ::
  "nat \<Rightarrow> world \<Rightarrow> SearchTask list \<Rightarrow> nat \<Rightarrow> history \<times> entry list
     \<Rightarrow> (history \<times> completion \<times> entry list) option" where
  "batch_loop K w searchTasks i s =
     (if i < length searchTasks then
        (case run_batch w (slice searchTasks i (i + K)) i s of
           (h', Returned, log') \<Rightarrow> batch_loop K w searchTasks (i + K) (h', log')
         | (h', Threw, log') \<Rightarrow> Some (h', Threw, log')
         | (h', Hung, log') \<Rightarrow> Some (h', Hung, log'))
      else Some (fst s, Returned, snd s))"

declare batch_loop.simps [code]

text \<open>
  \<^verbatim>\<open>runCrawlingCycle\<close>: the history is cleaned, the dates and the tasks are computed, the
  browser is launched (outside the \<^verbatim>\<open>try\<close>), the batches run, and \<^verbatim>\<open>browser.close()\<close> is
  awaited in the \<^verbatim>\<open>finally\<close>.
\<close>

definition runCrawlingCycle ::
  "nat \<Rightarrow> world \<Rightarrow> SearchItem list \<Rightarrow> nat \<Rightarrow> history
     \<Rightarrow> (history \<times> completion \<times> entry list) option" where
  "runCrawlingCycle K w gSearchList cycleNumber h =
     (let h1 = cleanupOldEmailHistory h (cleanup_now w);
          weekDates = getWeekDates (seoul_today w);
          searchTasks = searchTasks_of gSearchList weekDates;
          log1 = [Cleanup (cleanup_now w), WeekDates weekDates, Launch]
      in if launch_rejects w then Some (h1, Threw, log1)
         else
           (case batch_loop K w searchTasks 0 (h1, log1) of
              None \<Rightarrow> None
            | Some (h2, Hung, log2) \<Rightarrow> Some (h2, Hung, log2)
            | Some (h2, r, log2) \<Rightarrow>
                Some (h2, (if browser_close_rejects w then Threw else r),
                      (if r = Returned then log2 @ [CycleCompleted cycleNumber] else log2)
                        @ [CloseBrowser])))"

section \<open>The main loop\<close>


subsection \<open>Describing the batches\<close>

text \<open>
  The following functions and predicates are used to state what the scheduler does;
  they are not part of the program. \<open>batches K xs\<close> cuts \<open>xs\<close> into consecutive pieces of
  \<open>K\<close> elements, the last one possibly shorter.
\<close>

function batches :: "nat \<Rightarrow> 'a list \<Rightarrow> 'a list list" where
  "batches K xs = (if K = 0 \<or> xs = [] then [] else take K xs # batches K (drop K xs))"
  by pat_completeness auto
termination
  by (relation "measure (\<lambda>(K, xs). length xs)") auto

declare batches.simps [simp del]

text \<open>Running a given list of batches one after the other, the first at position \<open>i\<close>,
  each \<open>K\<close> positions after the one before, stopping at the first that does not return.\<close>

fun run_batches ::
  "world \<Rightarrow> nat \<Rightarrow> SearchTask list list \<Rightarrow> nat \<Rightarrow> history \<times> entry list
     \<Rightarrow> history \<times> completion \<times> entry list" where
  "run_batches w K [] i s = (fst s, Returned, snd s)"
| "run_batches w K (batch # rest) i s =
     (case run_batch w batch i s of
        (h', Returned, log') \<Rightarrow> run_batches w K rest (i + K) (h', log')
      | (h', Threw, log') \<Rightarrow> (h', Threw, log')
      | (h', Hung, log') \<Rightarrow> (h', Hung, log'))"

text \<open>
  The barrier between batches, on a log: wherever a task \<open>b\<close> is started, every task \<open>a\<close>
  of an earlier batch (positions \<open>a\<close> and \<open>b\<close> with \<open>a div K < b div K\<close>) has resolved before
  that point, and none of its events comes after it.
\<close>

definition barrier :: "nat \<Rightarrow> entry list \<Rightarrow> bool" where
  "barrier K log =
     (\<forall>pre b post a. log = pre @ Task b (Call NewPage) # post \<and> a div K < b div K \<longrightarrow>
        Task a Resolved \<in> set pre \<and> (\<forall>e. Task a e \<notin> set post))"

text \<open>The events that the protocol on the page can produce.\<close>

fun page_event :: "event \<Rightarrow> bool" where
  "page_event (Call NewPage) = False"
| "page_event (Call ClosePage) = False"
| "page_event (Call SendMail) = False"
| "page_event (Call c) = True"
| "page_event (Delay ms) = True"
| "page_event (PageClick a k) = True"
| "page_event (LogHtml c) = True"
| "page_event (LogOutcome out) = True"
| "page_event e = False"

text \<open>Every event of a computation satisfies \<open>P\<close>.\<close>

definition only :: "(event \<Rightarrow> bool) \<Rightarrow> 'a io \<Rightarrow> bool" where
  "only P m = (\<forall>e \<in> set (fst m). P e)"

text \<open>An entry of a task at one of the \<open>m\<close> positions from \<open>i\<close> on, other than its start.\<close>

definition batch_entry :: "nat \<Rightarrow> nat \<Rightarrow> entry \<Rightarrow> bool" where
  "batch_entry i m x = (\<exists>k e. x = Task (i + k) e \<and> k < m \<and> e \<noteq> Call NewPage)"

text \<open>Every task of the batch at \<open>i\<close> that has finished has its \<open>Resolved\<close> in the log.\<close>

definition resolved_logged :: "nat \<Rightarrow> task_state list \<Rightarrow> entry list \<Rightarrow> bool" where
  "resolved_logged i sts log =
     (\<forall>k < length sts. is_finished (sts ! k) \<longrightarrow> Task (i + k) Resolved \<in> set log)"


text \<open>The start of the \<open>m\<close> tasks from position \<open>i\<close> on, in order.\<close>

definition starts :: "nat \<Rightarrow> nat \<Rightarrow> entry list" where
  "starts i m = map (\<lambda>k. Task (i + k) (Call NewPage)) [0..<m]"

text \<open>
  What holds of the log when the loop is about to start the batch at position \<open>i\<close>:
  every task before \<open>i\<close> has resolved, no task from \<open>i\<close> on has an entry, and the barrier
  holds so far.
\<close>

definition batches_done :: "nat \<Rightarrow> nat \<Rightarrow> entry list \<Rightarrow> bool" where
  "batches_done K i log =
     ((\<forall>a < i. Task a Resolved \<in> set log)
      \<and> (\<forall>b e. Task b e \<in> set log \<longrightarrow> b < i)
      \<and> barrier K log)"

text \<open>
  What the tasks of a log did to the history: \<open>recorded log h\<close> is \<open>h\<close> after the sends
  recorded in \<open>log\<close>, applied in the order of the log.
\<close>

fun sent :: "entry \<Rightarrow> (string \<times> int) option" where
  "sent (Task n (Recorded u t)) = Some (u, t)"
| "sent x = None"

definition recorded :: "entry list \<Rightarrow> history \<Rightarrow> history" where
  "recorded log h =
     foldl (\<lambda>h x. case sent x of None \<Rightarrow> h | Some (u, t) \<Rightarrow> recordEmailSent h t u) h log"





subsection \<open>An example world\<close>

text \<open>
  26 February 2024 in Seoul; every page fails to navigate; the tasks of a batch are
  resumed in turn, three times each.
\<close>

definition example_turns :: "(nat \<times> int) list" where
  "example_turns = map (\<lambda>k. (k, 1708900001000)) [0, 1, 2, 3, 4, 5, 6]"

definition example_world :: world where
  "example_world =
     \<lparr>seoul_today = \<lparr>year = 2024, month = 2, day = 26\<rparr>, cleanup_now = 1708900000000,
      launch_rejects = False, browser_close_rejects = False,
      pages = (\<lambda>n. unreachable_page),
      resumptions = (\<lambda>i. example_turns @ example_turns @ example_turns)\<rparr>"

text \<open>What the tasks at the positions \<open>ks\<close> of one batch log in that world, and the log of
  the whole cycle for the single target \<^verbatim>\<open>5\<close>, in batches of 3.\<close>

definition example_round :: "nat list \<Rightarrow> entry list" where
  "example_round ks =
     map (\<lambda>k. Task k (Call NewPage)) ks
       @ concat (map (\<lambda>k.
            [Task k (Call (Goto (task_url ''5''
               (getWeekDates \<lparr>year = 2024, month = 2, day = 26\<rparr> ! k)))),
             Task k (LogOutcome Caught), Task k (Call ClosePage)]) ks)
       @ map (\<lambda>k. Task k (Delay 1000)) ks
       @ map (\<lambda>k. Task k Resolved) ks"

definition example_log :: "entry list" where
  "example_log =
     [Cleanup 1708900000000, WeekDates (getWeekDates \<lparr>year = 2024, month = 2, day = 26\<rparr>), Launch]
       @ example_round [0, 1, 2] @ example_round [3, 4, 5] @ example_round [6]
       @ [CycleCompleted 1, CloseBrowser]"







section \<open>Properties of the notification history\<close>

lemma history_ok_Nil: "history_ok []"
  by (simp add: history_ok_def)

lemma history_ok_recordEmailSent:
  "history_ok h \<Longrightarrow> history_ok (recordEmailSent h now k)"
  by (simp add: history_ok_def recordEmailSent_def distinct_update)

lemma map_of_recordEmailSent:
  "map_of (recordEmailSent h now k) = (map_of h)(k \<mapsto> now)"
  by (simp add: recordEmailSent_def update_conv')










lemma canSendEmail_iff:
  "map_of h k \<noteq> Some 0 \<Longrightarrow>
     canSendEmail h now k \<longleftrightarrow>
       (map_of h k = None \<or> (\<exists>t. map_of h k = Some t \<and> now - t \<ge> EMAIL_COOLDOWN_MS))"
  by (cases "map_of h k") (auto simp: canSendEmail_def)

lemma canSendEmail_fresh: "canSendEmail [] now k"
  by (simp add: canSendEmail_def)

lemma canSendEmail_blocked:
  "t0 \<noteq> 0 \<Longrightarrow> now - t0 < EMAIL_COOLDOWN_MS \<Longrightarrow>
     \<not> canSendEmail (recordEmailSent h t0 k) now k"
  by (simp add: canSendEmail_def map_of_recordEmailSent)

lemma canSendEmail_elapsed:
  "now - t0 \<ge> EMAIL_COOLDOWN_MS \<Longrightarrow> canSendEmail (recordEmailSent h t0 k) now k"
  by (simp add: canSendEmail_def map_of_recordEmailSent)

text \<open>
  C5 (as the code has it). The cooldown is 30 minutes. For a key whose stored timestamp
  is not \<open>0\<close>, \<^const>\<open>canSendEmail\<close> holds iff the history has no entry for the key or the
  entry's age is at least the cooldown (\<open>\<ge>\<close>, not \<open>>\<close>). It holds for every key on the
  empty history; it fails right after \<^const>\<open>recordEmailSent\<close> (at a clock value other than
  \<open>0\<close>) and for as long as the clock has advanced by less than the cooldown; it holds
  again once the clock has advanced by at least the cooldown.
\<close>

theorem canSendEmail_cooldown:
  "EMAIL_COOLDOWN_MS = 30 * 60 * 1000
   \<and> (map_of h k \<noteq> Some 0 \<longrightarrow>
        (canSendEmail h now k \<longleftrightarrow>
          (map_of h k = None \<or>
           (\<exists>t. map_of h k = Some t \<and> now - t \<ge> EMAIL_COOLDOWN_MS))))
   \<and> canSendEmail [] now k
   \<and> (t0 \<noteq> 0 \<longrightarrow> \<not> canSendEmail (recordEmailSent h t0 k) t0 k)
   \<and> (t0 \<noteq> 0 \<and> now - t0 < EMAIL_COOLDOWN_MS \<longrightarrow>
        \<not> canSendEmail (recordEmailSent h t0 k) now k)
   \<and> (now - t0 \<ge> EMAIL_COOLDOWN_MS \<longrightarrow> canSendEmail (recordEmailSent h t0 k) now k)"
proof -
  have "\<not> canSendEmail (recordEmailSent h t0 k) t0 k" if "t0 \<noteq> 0"
    using that canSendEmail_blocked [of t0 t0 h k] by (simp add: EMAIL_COOLDOWN_MS_def)
  then show ?thesis
    using canSendEmail_iff [of h k now] canSendEmail_fresh [of now k]
      canSendEmail_blocked [of t0 now h k] canSendEmail_elapsed [of now t0 h k]
    by (simp add: EMAIL_COOLDOWN_MS_def)
qed

theorem canSendEmail_cooldown_witness:
  "map_of [(''u'', 1000)] ''u'' \<noteq> Some (0::int)
   \<and> \<not> canSendEmail [(''u'', 1000)] 1500 ''u''
   \<and> canSendEmail [(''u'', 1000)] 1801000 ''u''
   \<and> (1000::int) \<noteq> 0 \<and> (1500::int) - 1000 < EMAIL_COOLDOWN_MS
   \<and> \<not> canSendEmail (recordEmailSent [] 1000 ''u'') 1000 ''u''
   \<and> \<not> canSendEmail (recordEmailSent [] 1000 ''u'') 1500 ''u''
   \<and> (1801000::int) - 1000 \<ge> EMAIL_COOLDOWN_MS
   \<and> canSendEmail (recordEmailSent [] 1000 ''u'') 1801000 ''u''"
  using canSendEmail_cooldown [where h = "[(''u'', 1000)]" and k = "''u''" and now = 1500 and ?t0.0 = 1000]
    canSendEmail_cooldown [where h = "[(''u'', 1000)]" and k = "''u''" and now = 1801000 and ?t0.0 = 1000]
    canSendEmail_cooldown [where h = "[]" and k = "''u''" and now = 1500 and ?t0.0 = 1000]
    canSendEmail_cooldown [where h = "[]" and k = "''u''" and now = 1801000 and ?t0.0 = 1000]
  by (simp add: EMAIL_COOLDOWN_MS_def)

text \<open>
  At an age of exactly the cooldown the code permits the send, while the strict reading
  (``the age exceeds the cooldown'') does not.
\<close>

theorem canSendEmail_boundary_counterexample:
  "canSendEmail [(''u'', 1000)] (1000 + EMAIL_COOLDOWN_MS) ''u''
   \<and> \<not> canSend_strict [(''u'', 1000)] (1000 + EMAIL_COOLDOWN_MS) ''u''"
  by (simp add: canSendEmail_def canSend_strict_def EMAIL_COOLDOWN_MS_def)

section \<open>Properties of task generation\<close>

lemma undec_snoc: "undec (s @ [c]) = 10 * undec s + (of_char c - 48)"
  by (simp add: undec_def)

lemma of_char_digit: "n < 10 \<Longrightarrow> of_char (digit n) - 48 = n"
proof -
  assume "n < 10"
  then have "n \<in> {0, 1, 2, 3, 4, 5, 6, 7, 8, 9}"
    by auto
  then show ?thesis
    by (auto simp: digit_def)
qed

lemma undec_dec: "undec (dec n) = n"
proof (induction n rule: dec.induct)
  case (1 n)
  show ?case
  proof (cases "n < 10")
    case True
    then show ?thesis
      using undec_snoc [of "[]" "digit n"] by (simp add: dec.simps [of n] of_char_digit undec_def)
  next
    case False
    then show ?thesis
      using 1 by (simp add: dec.simps [of n] undec_snoc of_char_digit)
  qed
qed

lemma undec_zeros: "undec (replicate k (CHR ''0'') @ s) = undec s"
proof -
  have "foldl (\<lambda>a c. 10 * a + (of_char c - 48)) 0 (replicate k (CHR ''0'')) = (0::nat)"
    by (induction k) simp_all
  then show ?thesis
    by (simp add: undec_def)
qed

lemma undec_padStart: "undec (padStart n (CHR ''0'') (dec m)) = m"
  by (simp add: padStart_def undec_zeros undec_dec)

lemma length_dec: "m < 100 \<Longrightarrow> length (dec m) \<le> 2"
proof -
  assume "m < 100"
  then have "m div 10 < 10" by simp
  then show ?thesis
    by (simp add: dec.simps [of m] dec.simps [of "m div 10"])
qed

lemma length_padStart2: "m < 100 \<Longrightarrow> length (padStart 2 c (dec m)) = 2"
  using length_dec [of m] by (simp add: padStart_def)

lemma parse_format:
  assumes "month d < 100" "day d < 100"
  shows "parse_YYYYMMDD (format_YYYYMMDD d) = d"
proof -
  define Y where "Y = padStart 4 (CHR ''0'') (dec (year d))"
  define M where "M = padStart 2 (CHR ''0'') (dec (month d))"
  define D where "D = padStart 2 (CHR ''0'') (dec (day d))"
  have len: "length M = 2" "length D = 2"
    using assms by (simp_all add: M_def D_def length_padStart2)
  have f: "format_YYYYMMDD d = Y @ M @ D"
    by (simp add: format_YYYYMMDD_def Y_def M_def D_def)
  have "undec Y = year d" "undec M = month d" "undec D = day d"
    by (simp_all add: Y_def M_def D_def undec_padStart)
  then show ?thesis
    using len by (simp add: f parse_YYYYMMDD_def)
qed

lemma valid_add_day: "valid_date d \<Longrightarrow> valid_date (add_day d)"
  by (auto simp: valid_date_def add_day_def days_in_month_def)

lemma valid_funpow_add_day: "valid_date d \<Longrightarrow> valid_date ((add_day ^^ j) d)"
  by (induction j) (simp_all add: valid_add_day)

lemma valid_date_bounds: "valid_date d \<Longrightarrow> month d < 100 \<and> day d < 100"
  by (auto simp: valid_date_def days_in_month_def split: if_splits)

lemma date_less_add_day: "date_less d (add_day d)"
  by (simp add: date_less_def add_day_def)

lemma date_less_trans: "date_less a b \<Longrightarrow> date_less b c \<Longrightarrow> date_less a c"
  by (auto simp: date_less_def)

lemma date_less_irrefl: "\<not> date_less a a"
  by (simp add: date_less_def)

lemma date_less_funpow: "i < j \<Longrightarrow> date_less ((add_day ^^ i) d) ((add_day ^^ j) d)"
proof (induction j)
  case 0
  then show ?case by simp
next
  case (Suc j)
  show ?case
  proof (cases "i = j")
    case True
    then show ?thesis using date_less_add_day [of "(add_day ^^ j) d"] by simp
  next
    case False
    with Suc have "date_less ((add_day ^^ i) d) ((add_day ^^ j) d)" by simp
    then show ?thesis
      using date_less_add_day [of "(add_day ^^ j) d"] date_less_trans by fastforce
  qed
qed

lemma week_loop_eq:
  "i \<le> 7 \<Longrightarrow> week_loop i d acc = acc @ map (\<lambda>j. format_YYYYMMDD ((add_day ^^ j) d)) [0..<7 - i]"
proof (induction i d acc rule: week_loop.induct)
  case (1 i d acc)
  show ?case
  proof (cases "i < 7")
    case True
    then have "[0..<7 - i] = 0 # map Suc [0..<7 - (i + 1)]"
      by (metis Suc_diff_Suc Suc_eq_plus1 map_Suc_upt upt_conv_Cons zero_less_diff)
    then show ?thesis
      using True 1 by (simp add: week_loop.simps [of i] funpow_swap1 comp_def)
  next
    case False
    then show ?thesis using 1(2) by (subst week_loop.simps) simp
  qed
qed

lemma getWeekDates_eq:
  "getWeekDates today = map (\<lambda>j. format_YYYYMMDD ((add_day ^^ j) today)) [0..<7]"
  by (simp add: getWeekDates_def week_loop_eq)

lemma format_inj:
  "valid_date a \<Longrightarrow> valid_date b \<Longrightarrow> format_YYYYMMDD a = format_YYYYMMDD b \<Longrightarrow> a = b"
  by (metis parse_format valid_date_bounds)

lemma distinct_getWeekDates: "valid_date today \<Longrightarrow> distinct (getWeekDates today)"
proof -
  assume v: "valid_date today"
  have "inj_on (\<lambda>j. format_YYYYMMDD ((add_day ^^ j) today)) (set [0..<7])"
  proof (rule inj_onI)
    fix i j assume "format_YYYYMMDD ((add_day ^^ i) today) = format_YYYYMMDD ((add_day ^^ j) today)"
    then have e: "(add_day ^^ i) today = (add_day ^^ j) today"
      using v format_inj valid_funpow_add_day by blast
    show "i = j"
    proof (rule ccontr)
      assume "i \<noteq> j"
      then consider "i < j" | "j < i" by linarith
      then show False
        using date_less_funpow [of i j today] date_less_funpow [of j i today] e
        by cases (simp_all add: date_less_irrefl)
    qed
  qed
  then show ?thesis
    by (simp add: getWeekDates_eq distinct_map)
qed

lemma length_getWeekDates: "length (getWeekDates today) = 7"
  by (simp add: getWeekDates_eq)

lemma length_searchTasks_of:
  "length (searchTasks_of items ds) = length items * length ds"
  by (induction items) (simp_all add: searchTasks_of_def)

lemma nth_searchTasks_of:
  "i < length items \<Longrightarrow> j < length ds \<Longrightarrow>
     searchTasks_of items ds ! (i * length ds + j) =
       \<lparr>idx = idx (items ! i), date = ds ! j, url = task_url (idx (items ! i)) (ds ! j)\<rparr>"
proof (induction items arbitrary: i)
  case Nil
  then show ?case by simp
next
  case (Cons x xs)
  show ?case
  proof (cases i)
    case 0
    with Cons.prems show ?thesis
      by (simp add: searchTasks_of_def nth_append)
  next
    case (Suc i')
    with Cons.prems have "i' < length xs" by simp
    from Cons.IH [OF this Cons.prems(2)] Suc show ?thesis
      by (simp add: searchTasks_of_def nth_append add.assoc)
  qed
qed

lemma idx_searchTasks_of:
  "t \<in> set (searchTasks_of items ds) \<Longrightarrow> idx t \<in> idx ` set items"
  by (auto simp: searchTasks_of_def)

lemma url_searchTasks_of:
  "t \<in> set (searchTasks_of items ds) \<Longrightarrow> url t = task_url (idx t) (date t)"
  by (auto simp: searchTasks_of_def)

lemma distinct_searchTasks_of:
  "distinct (map idx items) \<Longrightarrow> distinct ds \<Longrightarrow>
     distinct (map (\<lambda>t. (idx t, date t)) (searchTasks_of items ds))"
proof (induction items)
  case Nil
  then show ?case by (simp add: searchTasks_of_def)
next
  case (Cons x xs)
  have split: "searchTasks_of (x # xs) ds =
      map (\<lambda>d. \<lparr>idx = idx x, date = d, url = task_url (idx x) d\<rparr>) ds @ searchTasks_of xs ds"
    by (simp add: searchTasks_of_def)
  have here: "distinct (map (\<lambda>t. (idx t, date t))
      (map (\<lambda>d. \<lparr>idx = idx x, date = d, url = task_url (idx x) d\<rparr>) ds))"
    using Cons.prems(2) by (simp add: distinct_map comp_def inj_on_def)
  have rest: "distinct (map (\<lambda>t. (idx t, date t)) (searchTasks_of xs ds))"
    using Cons by simp
  have ne: "idx t \<noteq> idx x" if "t \<in> set (searchTasks_of xs ds)" for t :: SearchTask
    using idx_searchTasks_of [OF that] Cons.prems(1) by auto
  have disj: "set (map (\<lambda>t. (idx t, date t))
      (map (\<lambda>d. \<lparr>idx = idx x, date = d, url = task_url (idx x) d\<rparr>) ds))
      \<inter> set (map (\<lambda>t. (idx t, date t)) (searchTasks_of xs ds)) = {}"
  proof (rule ccontr)
    assume "\<not> ?thesis"
    then obtain p where p: "p \<in> set (map (\<lambda>t. (idx t, date t))
      (map (\<lambda>d. \<lparr>idx = idx x, date = d, url = task_url (idx x) d\<rparr>) ds))"
      "p \<in> set (map (\<lambda>t. (idx t, date t)) (searchTasks_of xs ds))"
      by blast
    from p(1) have "fst p = idx x" by auto
    moreover from p(2) obtain t :: SearchTask where "t \<in> set (searchTasks_of xs ds)" "fst p = idx t"
      by auto
    ultimately show False using ne by metis
  qed
  show ?case
    unfolding split map_append distinct_append using here rest disj by blast
qed

lemma getWeekDates_example:
  "getWeekDates \<lparr>year = 2024, month = 2, day = 26\<rparr> =
     [''20240226'', ''20240227'', ''20240228'', ''20240229'', ''20240301'', ''20240302'',
      ''20240303'']"
  by (simp add: getWeekDates_def week_loop.simps add_day_def days_in_month_def leap_year_def
      format_YYYYMMDD_def padStart_def dec.simps digit_def)

text \<open>
  C3 (as the code has it). With \<open>today\<close> the current calendar date in Asia/Seoul, one cycle
  generates exactly \<open>T \<times> 7\<close> tasks for a target list of length \<open>T\<close>: the dates are
  the 7 consecutive calendar dates starting today, in ascending order, formatted
  \<^verbatim>\<open>YYYYMMDD\<close>; the task at position \<open>i * 7 + j\<close> has the identifier of target \<open>i\<close>,
  date \<open>j\<close> and the url built from these two; the (identifier, date) pairs are pairwise
  distinct when the target identifiers are; and an empty target list yields no task.
\<close>

theorem searchTasks_product:
  "valid_date today \<Longrightarrow>
   (let dates = getWeekDates today; tasks = searchTasks_of targets dates in
      length tasks = length targets * 7
    \<and> dates = map (\<lambda>j. format_YYYYMMDD ((add_day ^^ j) today)) [0..<7]
    \<and> (\<forall>i j. i < j \<and> j < 7 \<longrightarrow> date_less ((add_day ^^ i) today) ((add_day ^^ j) today))
    \<and> (\<forall>i j. i < length targets \<and> j < 7 \<longrightarrow>
          tasks ! (i * 7 + j) =
            \<lparr>idx = idx (targets ! i), date = dates ! j,
             url = task_url (idx (targets ! i)) (dates ! j)\<rparr>)
    \<and> (distinct (map idx targets) \<longrightarrow> distinct (map (\<lambda>t. (idx t, date t)) tasks))
    \<and> searchTasks_of [] dates = [])"
proof -
  assume v: "valid_date today"
  have n: "length (getWeekDates today) = 7"
    by (rule length_getWeekDates)
  have "searchTasks_of targets (getWeekDates today) ! (i * 7 + j) =
      \<lparr>idx = idx (targets ! i), date = getWeekDates today ! j,
       url = task_url (idx (targets ! i)) (getWeekDates today ! j)\<rparr>"
    if "i < length targets" "j < 7" for i j
    using nth_searchTasks_of [of i targets j "getWeekDates today"] that n by simp
  moreover have "distinct (map (\<lambda>t. (idx t, date t)) (searchTasks_of targets (getWeekDates today)))"
    if "distinct (map idx targets)"
    using distinct_searchTasks_of [OF that distinct_getWeekDates [OF v]] .
  moreover have "length (searchTasks_of targets (getWeekDates today)) = length targets * 7"
    by (simp add: length_searchTasks_of n)
  moreover have "searchTasks_of [] (getWeekDates today) = []"
    by (simp add: searchTasks_of_def)
  ultimately show ?thesis
    unfolding Let_def using getWeekDates_eq [of today] date_less_funpow [of _ _ today] by blast
qed

text \<open>The targets \<^verbatim>\<open>25,5\<close> on 26 February 2024 (a leap year): 14 tasks.\<close>

theorem searchTasks_product_witness:
  "valid_date \<lparr>year = 2024, month = 2, day = 26\<rparr>
   \<and> getWeekDates \<lparr>year = 2024, month = 2, day = 26\<rparr> =
       [''20240226'', ''20240227'', ''20240228'', ''20240229'', ''20240301'', ''20240302'', ''20240303'']
   \<and> length (searchTasks_of [\<lparr>idx = ''25''\<rparr>, \<lparr>idx = ''5''\<rparr>]
         (getWeekDates \<lparr>year = 2024, month = 2, day = 26\<rparr>)) = 14
   \<and> searchTasks_of [\<lparr>idx = ''25''\<rparr>, \<lparr>idx = ''5''\<rparr>]
         (getWeekDates \<lparr>year = 2024, month = 2, day = 26\<rparr>) ! 11 =
       \<lparr>idx = ''5'', date = ''20240301'',
        url = ''https://www.dpsnnn.com/reserve_g?idx=5&day=20240301&endDay=20240301''\<rparr>"
proof -
  have v: "valid_date \<lparr>year = 2024, month = 2, day = 26\<rparr>"
    by (simp add: valid_date_def days_in_month_def leap_year_def)
  note d = getWeekDates_example
  note p = searchTasks_product [OF v, of "[\<lparr>idx = ''25''\<rparr>, \<lparr>idx = ''5''\<rparr>]", unfolded Let_def]
  note len = p [THEN conjunct1]
  note nth = p [THEN conjunct2, THEN conjunct2, THEN conjunct2, THEN conjunct1, rule_format, of 1 4]
  have "searchTasks_of [\<lparr>idx = ''25''\<rparr>, \<lparr>idx = ''5''\<rparr>]
         (getWeekDates \<lparr>year = 2024, month = 2, day = 26\<rparr>) ! 11 =
       \<lparr>idx = ''5'', date = ''20240301'',
        url = ''https://www.dpsnnn.com/reserve_g?idx=5&day=20240301&endDay=20240301''\<rparr>"
    using nth by (simp add: d task_url_def DPSNNN_G_URL_def)
  with len v d show ?thesis
    by simp
qed

text \<open>
  \<^verbatim>\<open>parseSearchList\<close> keeps repeated identifiers, so \<^verbatim>\<open>G_SEARCH_LIST=5,5\<close> yields two
  tasks for every (identifier, date) pair.
\<close>

theorem searchTasks_duplicate_counterexample:
  "parseSearchList (Some ''5,5'') = [\<lparr>idx = ''5''\<rparr>, \<lparr>idx = ''5''\<rparr>]
   \<and> \<not> distinct (map (\<lambda>t. (idx t, date t))
       (searchTasks_of (parseSearchList (Some ''5,5''))
          (getWeekDates \<lparr>year = 2024, month = 2, day = 26\<rparr>)))"
proof -
  note d = getWeekDates_example
  have p: "parseSearchList (Some ''5,5'') = [\<lparr>idx = ''5''\<rparr>, \<lparr>idx = ''5''\<rparr>]"
    by (simp add: parseSearchList_def trim_def is_space_def)
  show ?thesis
    unfolding p by (simp add: d searchTasks_of_def)
qed
section \<open>Properties of the probe\<close>

subsection \<open>Sequencing\<close>

lemma bind_ret [simp]: "bind (ret a) f = f a"
  by (simp add: bind_def ret_def split: prod.splits)

lemma bind_emit [simp]: "bind (emit e) f = (e # fst (f ()), snd (f ()))"
  by (simp add: bind_def emit_def split: prod.splits)

lemma bind_await_ok: "\<not> rejects ps c \<Longrightarrow> bind (await ps c) f = (Call c # fst (f ()), snd (f ()))"
  by (simp add: bind_def await_def split: prod.splits)

lemma bind_await_rejects: "rejects ps c \<Longrightarrow> bind (await ps c) f = ([Call c], None)"
  by (simp add: bind_def await_def)

lemma bind_value: "m = (es, Some a) \<Longrightarrow> bind m f = (es @ fst (f a), snd (f a))"
  by (simp add: bind_def split: prod.splits)

lemma bind_throw: "m = (es, None) \<Longrightarrow> bind m f = (es, None)"
  by (simp add: bind_def)

subsection \<open>The two searches\<close>

lemma scan_buttons_miss:
  "no_rejects ps \<Longrightarrow> \<forall>t \<in> set ts. \<not> has_reserve_text t \<Longrightarrow>
     scan_buttons ps a k ts = (map (\<lambda>j. Call (EvalText a (k + j))) [0..<length ts], Some None)"
proof (induction ts arbitrary: k)
  case Nil
  then show ?case by (simp add: ret_def)
next
  case (Cons t ts)
  then have "scan_buttons ps a (k + 1) ts =
      (map (\<lambda>j. Call (EvalText a (k + 1 + j))) [0..<length ts], Some None)"
    by simp
  with Cons.prems show ?case
    by (simp add: bind_await_ok no_rejects_def has_reserve_text_def map_upt_Suc del: upt_Suc)
qed

lemma scan_buttons_hit:
  "no_rejects ps \<Longrightarrow> \<forall>t \<in> set pre. \<not> has_reserve_text t \<Longrightarrow> has_reserve_text t \<Longrightarrow>
     scan_buttons ps a k (pre @ t # post) =
       (map (\<lambda>j. Call (EvalText a (k + j))) [0..<Suc (length pre)]
          @ [Call (ClickReserve a (k + length pre)), Call EvalDetail],
        Some (Some (case detail ps of None \<Rightarrow> [] | Some d \<Rightarrow> d)))"
proof (induction pre arbitrary: k)
  case Nil
  then show ?case
    by (simp add: bind_await_ok no_rejects_def has_reserve_text_def ret_def)
next
  case (Cons p pre)
  then have "scan_buttons ps a (k + 1) (pre @ t # post) =
       (map (\<lambda>j. Call (EvalText a (k + 1 + j))) [0..<Suc (length pre)]
          @ [Call (ClickReserve a (k + 1 + length pre)), Call EvalDetail],
        Some (Some (case detail ps of None \<Rightarrow> [] | Some d \<Rightarrow> d)))"
    by simp
  with Cons.prems show ?case
    by (simp add: bind_await_ok no_rejects_def has_reserve_text_def
        map_upt_Suc [of _ "Suc (length pre)"] del: upt_Suc)
qed

lemma reserve_loop_miss:
  "no_rejects ps \<Longrightarrow>
   \<forall>b. a \<le> b \<and> b \<le> maxReserveButtonAttempts \<longrightarrow> (\<forall>t \<in> set (anchors ps b). \<not> has_reserve_text t) \<Longrightarrow>
     reserve_loop ps a =
       (concat (map (missed_attempt ps) [a..<Suc maxReserveButtonAttempts]), Some None)"
proof (induction "Suc maxReserveButtonAttempts - a" arbitrary: a)
  case 0
  then have "\<not> a \<le> maxReserveButtonAttempts" by simp
  then show ?case
    by (subst reserve_loop.simps) (simp add: ret_def)
next
  case (Suc n)
  then have le: "a \<le> maxReserveButtonAttempts" by simp
  have scan: "scan_buttons ps a 0 (anchors ps a) =
      (map (\<lambda>j. Call (EvalText a j)) [0..<length (anchors ps a)], Some None)"
  proof -
    have "\<forall>t \<in> set (anchors ps a). \<not> has_reserve_text t"
      using Suc.prems(2) le by blast
    then show ?thesis
      using scan_buttons_miss [of ps "anchors ps a" a 0] Suc.prems(1) by simp
  qed
  have q: "\<not> rejects ps (QueryAnchors a)" "\<not> rejects ps (Reload a)"
    using Suc.prems(1) by (simp_all add: no_rejects_def)
  have rest: "reserve_loop ps (a + 1) =
      (concat (map (missed_attempt ps) [a + 1..<Suc maxReserveButtonAttempts]), Some None)"
  proof (rule Suc.hyps(1) [OF _ Suc.prems(1)])
    show "n = Suc maxReserveButtonAttempts - (a + 1)"
      using Suc.hyps(2) by simp
    show "\<forall>b. a + 1 \<le> b \<and> b \<le> maxReserveButtonAttempts \<longrightarrow>
        (\<forall>t \<in> set (anchors ps b). \<not> has_reserve_text t)"
    proof (intro allI impI)
      fix b assume "a + 1 \<le> b \<and> b \<le> maxReserveButtonAttempts"
      then have "a \<le> b \<and> b \<le> maxReserveButtonAttempts" by simp
      then show "\<forall>t \<in> set (anchors ps b). \<not> has_reserve_text t"
        using Suc.prems(2) by blast
    qed
  qed
  have rest': "reserve_loop ps (Suc a) =
      (concat (map (missed_attempt ps) [Suc a..<Suc maxReserveButtonAttempts]), Some None)"
    using rest by simp
  have up: "[a..<Suc maxReserveButtonAttempts] = a # [Suc a..<Suc maxReserveButtonAttempts]"
    using le by (simp add: upt_conv_Cons)
  show ?case
    by (subst reserve_loop.simps)
       (simp add: le q bind_await_ok bind_value [OF scan] rest' up missed_attempt_def del: upt_Suc)
qed

lemma reserve_loop_hit:
  assumes nr: "no_rejects ps"
    and le: "a \<le> a'" "a' \<le> maxReserveButtonAttempts"
    and miss: "\<forall>b \<in> {a..<a'}. entry_missing ps b"
    and k: "k < length (anchors ps a')" "has_reserve_text (anchors ps a' ! k)"
      "\<forall>t \<in> set (take k (anchors ps a')). \<not> has_reserve_text t"
  shows "reserve_loop ps a =
       (concat (map (missed_attempt ps) [a..<a'])
          @ Call (QueryAnchors a') # map (\<lambda>j. Call (EvalText a' j)) [0..<Suc k]
          @ [Call (ClickReserve a' k), Call EvalDetail],
        Some (Some (bookingName_of ps)))"
  using le(1) miss
proof (induction "a' - a" arbitrary: a)
  case 0
  then have [simp]: "a = a'" by simp
  have split: "anchors ps a' = take k (anchors ps a') @ anchors ps a' ! k # drop (Suc k) (anchors ps a')"
    using k(1) by (simp add: id_take_nth_drop)
  have scan: "scan_buttons ps a' 0 (anchors ps a') =
      (map (\<lambda>j. Call (EvalText a' j)) [0..<Suc k] @ [Call (ClickReserve a' k), Call EvalDetail],
       Some (Some (bookingName_of ps)))"
    using scan_buttons_hit [OF nr k(3) k(2), of a' 0 "drop (Suc k) (anchors ps a')"] split k(1)
    by (simp add: bookingName_of_def)
  have q: "\<not> rejects ps (QueryAnchors a')"
    using nr by (simp add: no_rejects_def)
  show ?case
    by (subst reserve_loop.simps)
       (simp add: le(2) q bind_await_ok bind_value [OF scan] ret_def del: upt_Suc)
next
  case (Suc n)
  then have lt: "a < a'" by simp
  with le(2) have le': "a \<le> maxReserveButtonAttempts" "a < maxReserveButtonAttempts" by simp_all
  have "entry_missing ps a"
    using Suc.prems(2) lt by simp
  then have scan: "scan_buttons ps a 0 (anchors ps a) =
      (map (\<lambda>j. Call (EvalText a j)) [0..<length (anchors ps a)], Some None)"
    using scan_buttons_miss [OF nr, of "anchors ps a" a 0] by (simp add: entry_missing_def)
  have q: "\<not> rejects ps (QueryAnchors a)" "\<not> rejects ps (Reload a)"
    using nr by (simp_all add: no_rejects_def)
  have rest: "reserve_loop ps (Suc a) =
       (concat (map (missed_attempt ps) [Suc a..<a'])
          @ Call (QueryAnchors a') # map (\<lambda>j. Call (EvalText a' j)) [0..<Suc k]
          @ [Call (ClickReserve a' k), Call EvalDetail],
        Some (Some (bookingName_of ps)))"
  proof (rule Suc.hyps(1))
    show "n = a' - Suc a" using Suc.hyps(2) by simp
    show "Suc a \<le> a'" using lt by simp
    show "\<forall>b \<in> {Suc a..<a'}. entry_missing ps b" using Suc.prems(2) by simp
  qed
  have up: "[a..<a'] = a # [Suc a..<a']"
    using lt by (simp add: upt_conv_Cons)
  show ?case
    by (subst reserve_loop.simps)
       (simp add: le' q bind_await_ok bind_value [OF scan] rest up missed_attempt_def del: upt_Suc)
qed

lemma evaluate_non_member_miss:
  "\<not> non_member_clicks bs \<Longrightarrow> evaluate_non_member a bs = ([], Some False)"
  by (auto simp: evaluate_non_member_def non_member_clicks_def ret_def split: option.splits)

lemma evaluate_non_member_hit:
  "non_member_clicks bs \<Longrightarrow>
     evaluate_non_member a bs = ([PageClick a (first_index is_non_member_button bs)], Some True)"
  by (auto simp: evaluate_non_member_def non_member_clicks_def ret_def split: option.splits)

lemma non_member_loop_miss:
  "no_rejects ps \<Longrightarrow>
   \<forall>c. a \<le> c \<and> c \<le> maxNonMemberButtonAttempts \<longrightarrow> \<not> non_member_clicks (clickables ps c) \<Longrightarrow>
     non_member_loop ps a =
       (concat (map missed_non_member [a..<Suc maxNonMemberButtonAttempts]), Some False)"
proof (induction "Suc maxNonMemberButtonAttempts - a" arbitrary: a)
  case 0
  then have "\<not> a \<le> maxNonMemberButtonAttempts" by simp
  then show ?case
    by (subst non_member_loop.simps) (simp add: ret_def)
next
  case (Suc n)
  then have le: "a \<le> maxNonMemberButtonAttempts" by simp
  have "\<not> non_member_clicks (clickables ps a)"
    using Suc.prems(2) le by blast
  note ev = evaluate_non_member_miss [OF this, of a]
  have q: "\<not> rejects ps (EvalNonMember a)"
    using Suc.prems(1) by (simp add: no_rejects_def)
  have rest: "non_member_loop ps (Suc a) =
      (concat (map missed_non_member [Suc a..<Suc maxNonMemberButtonAttempts]), Some False)"
  proof (rule Suc.hyps(1) [OF _ Suc.prems(1)])
    show "n = Suc maxNonMemberButtonAttempts - Suc a"
      using Suc.hyps(2) by simp
    show "\<forall>c. Suc a \<le> c \<and> c \<le> maxNonMemberButtonAttempts \<longrightarrow>
        \<not> non_member_clicks (clickables ps c)"
    proof (intro allI impI)
      fix c assume "Suc a \<le> c \<and> c \<le> maxNonMemberButtonAttempts"
      then have "a \<le> c \<and> c \<le> maxNonMemberButtonAttempts" by simp
      then show "\<not> non_member_clicks (clickables ps c)"
        using Suc.prems(2) by blast
    qed
  qed
  have up: "[a..<Suc maxNonMemberButtonAttempts] = a # [Suc a..<Suc maxNonMemberButtonAttempts]"
    using le by (simp add: upt_conv_Cons)
  show ?case
    by (subst non_member_loop.simps)
       (simp add: le q bind_await_ok bind_value [OF ev] rest up missed_non_member_def del: upt_Suc)
qed

lemma non_member_loop_hit:
  assumes nr: "no_rejects ps"
    and le: "a \<le> b" "b \<le> maxNonMemberButtonAttempts"
    and miss: "\<forall>c \<in> {a..<b}. \<not> non_member_clicks (clickables ps c)"
    and hit: "non_member_clicks (clickables ps b)"
  shows "non_member_loop ps a =
       (concat (map missed_non_member [a..<b])
          @ [Call (EvalNonMember b), PageClick b (first_index is_non_member_button (clickables ps b))],
        Some True)"
  using le(1) miss
proof (induction "b - a" arbitrary: a)
  case 0
  then have [simp]: "a = b" by simp
  note ev = evaluate_non_member_hit [OF hit, of b]
  have q: "\<not> rejects ps (EvalNonMember b)"
    using nr by (simp add: no_rejects_def)
  show ?case
    by (subst non_member_loop.simps)
       (simp add: le(2) q bind_await_ok bind_value [OF ev] ret_def)
next
  case (Suc n)
  then have lt: "a < b" by simp
  with le(2) have le': "a \<le> maxNonMemberButtonAttempts" "a < maxNonMemberButtonAttempts"
    by simp_all
  have "\<not> non_member_clicks (clickables ps a)"
    using Suc.prems(2) lt by simp
  note ev = evaluate_non_member_miss [OF this, of a]
  have q: "\<not> rejects ps (EvalNonMember a)"
    using nr by (simp add: no_rejects_def)
  have rest: "non_member_loop ps (Suc a) =
       (concat (map missed_non_member [Suc a..<b])
          @ [Call (EvalNonMember b), PageClick b (first_index is_non_member_button (clickables ps b))],
        Some True)"
  proof (rule Suc.hyps(1))
    show "n = b - Suc a" using Suc.hyps(2) by simp
    show "Suc a \<le> b" using lt by simp
    show "\<forall>c \<in> {Suc a..<b}. \<not> non_member_clicks (clickables ps c)" using Suc.prems(2) by simp
  qed
  have up: "[a..<b] = a # [Suc a..<b]"
    using lt by (simp add: upt_conv_Cons)
  show ?case
    by (subst non_member_loop.simps)
       (simp add: le' q bind_await_ok bind_value [OF ev] rest up missed_non_member_def del: upt_Suc)
qed

subsection \<open>The protocol on the page\<close>

lemma probe_page_not_found:
  assumes nr: "no_rejects ps"
    and miss: "entry_never_found ps"
  shows "probe_page ps task =
       ([Call (Goto (url task)), Call SetViewport]
          @ concat (map (missed_attempt ps) [1..<Suc maxReserveButtonAttempts])
          @ [LogOutcome PageError, Call Content, LogHtml (content ps)],
        Some NotFound)"
proof -
  have "\<forall>b. 1 \<le> b \<and> b \<le> maxReserveButtonAttempts \<longrightarrow>
      (\<forall>t \<in> set (anchors ps b). \<not> has_reserve_text t)"
    using miss by (simp add: entry_never_found_def entry_missing_def)
  note loop = reserve_loop_miss [OF nr this]
  have q: "\<not> rejects ps (Goto (url task))" "\<not> rejects ps SetViewport" "\<not> rejects ps Content"
    using nr by (simp_all add: no_rejects_def)
  show ?thesis
    by (simp add: probe_page_def q bind_await_ok bind_value [OF loop] ret_def del: upt_Suc One_nat_def)
qed

lemma probe_page_located:
  assumes nr: "no_rejects ps" and found: "entry_found ps a k"
  shows "probe_page ps task =
       bind ([Call (Goto (url task)), Call SetViewport] @ locate_events ps a k @ [Delay 500], Some ())
         (\<lambda>_. bind (non_member_loop ps 1) (\<lambda>nonMemberButtonClicked.
             if \<not> nonMemberButtonClicked then ret NoNonMember
             else
               bind (emit (Delay 1000)) (\<lambda>_.
                 if alertAppeared ps then ret Alert
                 else
                   bind (emit (Delay 1000)) (\<lambda>_.
                     if currentUrl ps \<noteq> newUrl ps then ret (Redirected (bookingName_of ps))
                     else ret NoRedirect))))"
proof -
  have loop: "reserve_loop ps 1 = (locate_events ps a k, Some (Some (bookingName_of ps)))"
    unfolding locate_events_def
    by (rule reserve_loop_hit [OF nr]) (use found in \<open>simp_all add: entry_found_def\<close>)
  have q: "\<not> rejects ps (Goto (url task))" "\<not> rejects ps SetViewport"
    using nr by (simp_all add: no_rejects_def)
  show ?thesis
    by (simp add: probe_page_def q bind_await_ok bind_value [OF loop] bind_value [OF refl]
        del: upt_Suc One_nat_def)
qed

lemma probe_page_no_non_member:
  assumes nr: "no_rejects ps" and found: "entry_found ps a k"
    and miss: "non_member_never_clicked ps"
  shows "probe_page ps task =
       ([Call (Goto (url task)), Call SetViewport] @ locate_events ps a k @ [Delay 500]
          @ concat (map missed_non_member [1..<Suc maxNonMemberButtonAttempts]),
        Some NoNonMember)"
proof -
  have "\<forall>c. 1 \<le> c \<and> c \<le> maxNonMemberButtonAttempts \<longrightarrow> \<not> non_member_clicks (clickables ps c)"
    using miss by (simp add: non_member_never_clicked_def)
  note loop = non_member_loop_miss [OF nr this]
  show ?thesis
    by (simp add: probe_page_located [OF nr found] bind_value [OF refl] bind_value [OF loop]
        ret_def del: upt_Suc One_nat_def)
qed

lemma probe_page_engaged:
  assumes nr: "no_rejects ps" and found: "entry_found ps a k" and nm: "non_member_found ps b"
  shows "probe_page ps task =
       ([Call (Goto (url task)), Call SetViewport] @ locate_events ps a k @ [Delay 500]
          @ engage_events ps b @ Delay 1000 # (if alertAppeared ps then [] else [Delay 1000]),
        Some (if alertAppeared ps then Alert
              else if currentUrl ps \<noteq> newUrl ps then Redirected (bookingName_of ps)
              else NoRedirect))"
proof -
  have loop: "non_member_loop ps 1 = (engage_events ps b, Some True)"
    unfolding engage_events_def
    by (rule non_member_loop_hit [OF nr]) (use nm in \<open>simp_all add: non_member_found_def\<close>)
  show ?thesis
    by (simp add: probe_page_located [OF nr found] bind_value [OF refl] bind_value [OF loop]
        ret_def del: upt_Suc One_nat_def)
qed

subsection \<open>The events of the protocol on the page\<close>

lemma only_bind:
  assumes "only P m" and "\<And>a. only P (f a)"
  shows "only P (bind m f)"
proof (cases m)
  case (Pair es r)
  show ?thesis
  proof (cases r)
    case None
    with Pair assms(1) show ?thesis by (simp add: bind_def only_def)
  next
    case (Some a)
    with Pair assms(1) assms(2) [of a] show ?thesis
      by (cases "f a") (auto simp: bind_def only_def)
  qed
qed

lemma only_await: "P (Call c) \<Longrightarrow> only P (await ps c)"
  by (simp add: await_def only_def)

lemma only_ret: "only P (ret a)"
  by (simp add: ret_def only_def)

lemma only_emit: "P e \<Longrightarrow> only P (emit e)"
  by (simp add: emit_def only_def)

lemma only_if: "only P x \<Longrightarrow> only P y \<Longrightarrow> only P (if b then x else y)"
  by simp

lemma only_case_option:
  "only P x \<Longrightarrow> (\<And>v. only P (f v)) \<Longrightarrow> only P (case r of None \<Rightarrow> x | Some v \<Rightarrow> f v)"
  by (cases r) simp_all

lemmas only_intros = only_bind only_await only_ret only_emit only_if only_case_option

lemma scan_buttons_events: "only page_event (scan_buttons ps a k ts)"
proof (induction ts arbitrary: k)
  case Nil
  show ?case by (simp add: only_ret)
next
  case (Cons t ts)
  show ?case
    unfolding scan_buttons.simps
    by (intro only_intros Cons) simp_all
qed

lemma reserve_loop_events: "only page_event (reserve_loop ps a)"
proof (induction "Suc maxReserveButtonAttempts - a" arbitrary: a)
  case 0
  then show ?case
    by (subst reserve_loop.simps) (simp add: only_ret)
next
  case (Suc n)
  then have IH: "only page_event (reserve_loop ps (a + 1))"
    by simp
  show ?case
    by (subst reserve_loop.simps) (intro only_intros scan_buttons_events IH; simp)
qed

lemma evaluate_non_member_events: "only page_event (evaluate_non_member a bs)"
  unfolding evaluate_non_member_def
  by (intro only_intros) simp_all

lemma non_member_loop_events: "only page_event (non_member_loop ps a)"
proof (induction "Suc maxNonMemberButtonAttempts - a" arbitrary: a)
  case 0
  then show ?case
    by (subst non_member_loop.simps) (simp add: only_ret)
next
  case (Suc n)
  then have IH: "only page_event (non_member_loop ps (a + 1))"
    by simp
  show ?case
    by (subst non_member_loop.simps) (intro only_intros evaluate_non_member_events IH; simp)
qed

lemma probe_page_events: "only page_event (probe_page ps task)"
  unfolding probe_page_def
  by (intro only_intros reserve_loop_events non_member_loop_events; simp)

subsection \<open>A probe that runs alone\<close>

lemma checkReservation_plain:
  assumes "no_rejects ps" and "probe_page ps task = (es, Some v)"
    and "\<forall>n. v \<noteq> Redirected n"
  shows "checkReservation ps task tc tr h =
       (h, Finished (outcome_of v),
        Call NewPage # es @ (if v = NotFound then [] else [LogOutcome (outcome_of v)])
          @ [Call ClosePage, Delay 1000, Resolved])"
  using assms
  by (cases v) (simp_all add: checkReservation_def after_page_def no_rejects_def)

lemma checkReservation_send:
  assumes "no_rejects ps" and "probe_page ps task = (es, Some (Redirected n))"
    and "canSendEmail h tc (url task)"
  shows "checkReservation ps task tc tr h =
       (recordEmailSent h tr (url task), Finished (Available n),
        Call NewPage # es @ [LogOutcome (Available n), Notify (url task) (email_name task n),
          Call SendMail, Recorded (url task) tr, Call ClosePage, Delay 1000, Resolved])"
  using assms
  by (simp add: checkReservation_def after_page_def no_rejects_def)

lemma checkReservation_skip:
  assumes "no_rejects ps" and "probe_page ps task = (es, Some (Redirected n))"
    and "\<not> canSendEmail h tc (url task)"
  shows "checkReservation ps task tc tr h =
       (h, Finished (Available n),
        Call NewPage # es @ [LogOutcome (Available n), Skipped (url task), Call ClosePage, Delay 1000, Resolved])"
  using assms
  by (simp add: checkReservation_def after_page_def no_rejects_def)

lemma checkReservation_state:
  assumes "no_rejects ps" and "probe_page ps task = (es, Some v)"
  shows "fst (snd (checkReservation ps task tc tr h)) = Finished (outcome_of v)"
proof (cases "\<exists>n. v = Redirected n")
  case False
  then show ?thesis
    using checkReservation_plain [OF assms, where tc = tc and tr = tr and h = h] by simp
next
  case True
  then obtain n where "v = Redirected n" by blast
  then show ?thesis
    using checkReservation_send [OF assms(1), where task = task and es = es and n = n and h = h and tc = tc and tr = tr]
      checkReservation_skip [OF assms(1), where task = task and es = es and n = n and h = h and tc = tc and tr = tr] assms(2)
    by (cases "canSendEmail h tc (url task)") simp_all
qed

lemma blank_page_facts:
  "no_rejects blank_page"
  "entry_never_found blank_page"
  by (simp_all add: no_rejects_def blank_page_def entry_never_found_def entry_missing_def
      has_reserve_text_def
      RESERVE_BUTTON_TEXT_def of_ascii_def)

lemma bookable_page_facts:
  "no_rejects bookable_page"
  "entry_found bookable_page 3 1"
  "non_member_found bookable_page 2"
  by (simp_all add: no_rejects_def bookable_page_def blank_page_def entry_found_def entry_missing_def
      has_reserve_text_def non_member_found_def non_member_clicks_def is_non_member_button_def
      maxReserveButtonAttempts_def maxNonMemberButtonAttempts_def
      RESERVE_BUTTON_TEXT_def NON_MEMBER_TEXT_def RESERVE_TEXT_def of_ascii_def)

subsection \<open>The search for the reservation entry point\<close>

lemma engages_missed_attempt: "e \<in> set (missed_attempt ps a) \<Longrightarrow> \<not> engages e"
  by (auto simp: missed_attempt_def split: if_splits)

text \<open>A computation built from awaited calls and logged events is its list of events, cut
  at the first call that rejects.\<close>

lemma until_reject_clean:
  assumes "\<forall>e \<in> set es. \<not> rejected ps e"
  shows "until_reject ps es v = (es, Some v)"
proof -
  have d: "dropWhile (\<lambda>e. \<not> rejected ps e) es = []"
    using assms by simp
  show ?thesis
    by (simp add: until_reject_def d)
qed

lemma until_reject_ret: "ret v = until_reject ps [] v"
  by (simp add: until_reject_def ret_def)

lemma until_reject_await: "await ps c = until_reject ps [Call c] ()"
  by (simp add: until_reject_def await_def)

lemma until_reject_emit: "\<not> rejected ps e \<Longrightarrow> emit e = until_reject ps [e] ()"
  by (simp add: until_reject_def emit_def)

lemma bind_until_reject:
  assumes "f a = until_reject ps es2 b"
  shows "bind (until_reject ps es1 a) f = until_reject ps (es1 @ es2) b"
proof (cases "\<forall>e \<in> set es1. \<not> rejected ps e")
  case True
  then have d: "dropWhile (\<lambda>e. \<not> rejected ps e) es1 = []"
    by simp
  have t: "takeWhile (\<lambda>e. \<not> rejected ps e) (es1 @ es2) = es1 @ takeWhile (\<lambda>e. \<not> rejected ps e) es2"
    using True by (simp add: takeWhile_append2)
  have d2: "dropWhile (\<lambda>e. \<not> rejected ps e) (es1 @ es2) = dropWhile (\<lambda>e. \<not> rejected ps e) es2"
    using True by (simp add: dropWhile_append2)
  show ?thesis
  proof (cases "dropWhile (\<lambda>e. \<not> rejected ps e) es2")
    case Nil
    show ?thesis
      by (simp add: assms until_reject_def bind_def t d2 d Nil)
  next
    case (Cons y ys)
    show ?thesis
      by (simp add: assms until_reject_def bind_def t d2 d Cons)
  qed
next
  case False
  then obtain x where x: "x \<in> set es1" "rejected ps x" by blast
  then have ne: "dropWhile (\<lambda>e. \<not> rejected ps e) es1 \<noteq> []"
    by (auto simp: dropWhile_eq_Nil_conv)
  have t: "takeWhile (\<lambda>e. \<not> rejected ps e) (es1 @ es2) = takeWhile (\<lambda>e. \<not> rejected ps e) es1"
    using x by (simp add: takeWhile_append1)
  have d2: "dropWhile (\<lambda>e. \<not> rejected ps e) (es1 @ es2) = dropWhile (\<lambda>e. \<not> rejected ps e) es1 @ es2"
    using x by (simp add: dropWhile_append1)
  show ?thesis
  proof (cases "dropWhile (\<lambda>e. \<not> rejected ps e) es1")
    case Nil
    with ne show ?thesis by simp
  next
    case (Cons y ys)
    show ?thesis
      by (simp add: until_reject_def bind_def t d2 Cons)
  qed
qed

lemma scan_buttons_miss_cut:
  "\<forall>t \<in> set ts. \<not> has_reserve_text t \<Longrightarrow>
     scan_buttons ps a k ts =
       until_reject ps (map (\<lambda>j. Call (EvalText a (k + j))) [0..<length ts]) None"
proof (induction ts arbitrary: k)
  case Nil
  then show ?case by (simp add: until_reject_ret)
next
  case (Cons t ts)
  then have IH: "scan_buttons ps a (k + 1) ts =
      until_reject ps (map (\<lambda>j. Call (EvalText a (k + 1 + j))) [0..<length ts]) None"
    by simp
  have "scan_buttons ps a k (t # ts) =
      bind (until_reject ps [Call (EvalText a k)] ()) (\<lambda>_. scan_buttons ps a (k + 1) ts)"
    using Cons.prems by (simp add: has_reserve_text_def until_reject_await)
  also have "\<dots> = until_reject ps ([Call (EvalText a k)]
      @ map (\<lambda>j. Call (EvalText a (k + 1 + j))) [0..<length ts]) None"
    by (rule bind_until_reject) (rule IH)
  finally show ?case
    by (simp add: map_upt_Suc del: upt_Suc)
qed

lemma scan_buttons_hit_cut:
  "\<forall>t \<in> set pre. \<not> has_reserve_text t \<Longrightarrow> has_reserve_text t \<Longrightarrow>
     scan_buttons ps a k (pre @ t # post) =
       until_reject ps
         (map (\<lambda>j. Call (EvalText a (k + j))) [0..<Suc (length pre)]
            @ [Call (ClickReserve a (k + length pre)), Call EvalDetail])
         (Some (bookingName_of ps))"
proof (induction pre arbitrary: k)
  case Nil
  have "scan_buttons ps a k (t # post) =
      bind (until_reject ps [Call (EvalText a k)] ()) (\<lambda>_.
        bind (until_reject ps [Call (ClickReserve a k)] ()) (\<lambda>_.
          bind (until_reject ps [Call EvalDetail] ()) (\<lambda>_.
            until_reject ps [] (Some (bookingName_of ps)))))"
    using Nil.prems
    by (simp add: has_reserve_text_def until_reject_await until_reject_ret [symmetric]
        bookingName_of_def)
  also have "\<dots> = until_reject ps
      ([Call (EvalText a k)] @ [Call (ClickReserve a k)] @ [Call EvalDetail] @ [])
      (Some (bookingName_of ps))"
    by (intro bind_until_reject refl)
  finally show ?case
    by simp
next
  case (Cons p pre)
  then have IH: "scan_buttons ps a (k + 1) (pre @ t # post) =
       until_reject ps
         (map (\<lambda>j. Call (EvalText a (k + 1 + j))) [0..<Suc (length pre)]
            @ [Call (ClickReserve a (k + 1 + length pre)), Call EvalDetail])
         (Some (bookingName_of ps))"
    by simp
  have "scan_buttons ps a k ((p # pre) @ t # post) =
      bind (until_reject ps [Call (EvalText a k)] ()) (\<lambda>_. scan_buttons ps a (k + 1) (pre @ t # post))"
    using Cons.prems by (simp add: has_reserve_text_def until_reject_await)
  also have "\<dots> = until_reject ps ([Call (EvalText a k)]
      @ map (\<lambda>j. Call (EvalText a (k + 1 + j))) [0..<Suc (length pre)]
            @ [Call (ClickReserve a (k + 1 + length pre)), Call EvalDetail])
         (Some (bookingName_of ps))"
    by (rule bind_until_reject) (rule IH)
  finally show ?case
    by (simp add: map_upt_Suc [of _ "Suc (length pre)"] del: upt_Suc)
qed


lemma missed_tail_cut:
  assumes rest: "reserve_loop ps (a + 1) = until_reject ps es v"
  shows "(if a < maxReserveButtonAttempts then
            bind (await ps (Reload a)) (\<lambda>_.
            bind (emit (Delay 500)) (\<lambda>_.
              reserve_loop ps (a + 1)))
          else reserve_loop ps (a + 1)) =
         until_reject ps
           ((if a < maxReserveButtonAttempts then [Call (Reload a), Delay 500] else []) @ es) v"
proof (cases "a < maxReserveButtonAttempts")
  case True
  have "bind (await ps (Reload a)) (\<lambda>_. bind (emit (Delay 500)) (\<lambda>_. reserve_loop ps (a + 1))) =
      bind (until_reject ps [Call (Reload a)] ()) (\<lambda>_.
        bind (until_reject ps [Delay 500] ()) (\<lambda>_. until_reject ps es v))"
    by (simp only: rest until_reject_await until_reject_emit [of ps "Delay 500", simplified])
  also have "\<dots> = until_reject ps ([Call (Reload a)] @ [Delay 500] @ es) v"
    by (intro bind_until_reject refl)
  finally show ?thesis
    using True by simp
next
  case False
  then show ?thesis
    using rest by simp
qed

lemma reserve_loop_step_miss:
  assumes le: "a \<le> maxReserveButtonAttempts"
    and miss: "entry_missing ps a"
    and rest: "reserve_loop ps (a + 1) = until_reject ps es v"
  shows "reserve_loop ps a = until_reject ps (missed_attempt ps a @ es) v"
proof -
  have scan: "scan_buttons ps a 0 (anchors ps a) =
      until_reject ps (map (\<lambda>j. Call (EvalText a j)) [0..<length (anchors ps a)]) None"
    using scan_buttons_miss_cut [of "anchors ps a" ps a 0] miss
    by (simp add: entry_missing_def)
  let ?tail = "(if a < maxReserveButtonAttempts then [Call (Reload a), Delay 500] else []) @ es"
  let ?cont = "\<lambda>found. case found of
            Some bookingName \<Rightarrow> ret (Some bookingName)
          | None \<Rightarrow>
              if a < maxReserveButtonAttempts then
                bind (await ps (Reload a)) (\<lambda>_.
                bind (emit (Delay 500)) (\<lambda>_.
                  reserve_loop ps (a + 1)))
              else reserve_loop ps (a + 1)"
  have cont: "?cont None = until_reject ps ?tail v"
    using missed_tail_cut [OF rest] by simp
  have "reserve_loop ps a =
      bind (until_reject ps [Call (QueryAnchors a)] ()) (\<lambda>_.
        bind (until_reject ps (map (\<lambda>j. Call (EvalText a j)) [0..<length (anchors ps a)]) None) ?cont)"
    by (subst reserve_loop.simps) (simp only: le if_True scan until_reject_await)
  also have "\<dots> = until_reject ps ([Call (QueryAnchors a)]
      @ map (\<lambda>j. Call (EvalText a j)) [0..<length (anchors ps a)] @ ?tail) v"
    by (intro bind_until_reject cont)
  finally show ?thesis
    by (simp add: missed_attempt_def)
qed

lemma reserve_loop_miss_cut:
  "\<forall>b. a \<le> b \<and> b \<le> maxReserveButtonAttempts \<longrightarrow> entry_missing ps b \<Longrightarrow>
     reserve_loop ps a =
       until_reject ps (concat (map (missed_attempt ps) [a..<Suc maxReserveButtonAttempts])) None"
proof (induction "Suc maxReserveButtonAttempts - a" arbitrary: a)
  case 0
  then have "\<not> a \<le> maxReserveButtonAttempts" by simp
  then show ?case
    by (subst reserve_loop.simps) (simp add: until_reject_ret)
next
  case (Suc n)
  then have le: "a \<le> maxReserveButtonAttempts" by simp
  have miss: "entry_missing ps a"
    using Suc.prems le by blast
  have rest: "reserve_loop ps (a + 1) =
      until_reject ps (concat (map (missed_attempt ps) [a + 1..<Suc maxReserveButtonAttempts])) None"
  proof (rule Suc.hyps(1))
    show "n = Suc maxReserveButtonAttempts - (a + 1)"
      using Suc.hyps(2) by simp
    show "\<forall>b. a + 1 \<le> b \<and> b \<le> maxReserveButtonAttempts \<longrightarrow> entry_missing ps b"
      using Suc.prems by simp
  qed
  have up: "[a..<Suc maxReserveButtonAttempts] = a # [a + 1..<Suc maxReserveButtonAttempts]"
    using le by (simp add: upt_conv_Cons)
  show ?case
    using reserve_loop_step_miss [OF le miss rest] by (simp add: up del: upt_Suc)
qed

lemma reserve_loop_hit_cut:
  assumes le: "a \<le> a'" "a' \<le> maxReserveButtonAttempts"
    and miss: "\<forall>b \<in> {a..<a'}. entry_missing ps b"
    and k: "k < length (anchors ps a')" "has_reserve_text (anchors ps a' ! k)"
      "\<forall>t \<in> set (take k (anchors ps a')). \<not> has_reserve_text t"
  shows "reserve_loop ps a =
       until_reject ps
         (concat (map (missed_attempt ps) [a..<a'])
            @ Call (QueryAnchors a') # map (\<lambda>j. Call (EvalText a' j)) [0..<Suc k]
            @ [Call (ClickReserve a' k), Call EvalDetail])
         (Some (bookingName_of ps))"
  using le(1) miss
proof (induction "a' - a" arbitrary: a)
  case 0
  then have [simp]: "a = a'" by simp
  have split: "anchors ps a' = take k (anchors ps a') @ anchors ps a' ! k # drop (Suc k) (anchors ps a')"
    using k(1) by (simp add: id_take_nth_drop)
  have scan: "scan_buttons ps a' 0 (anchors ps a') =
      until_reject ps
        (map (\<lambda>j. Call (EvalText a' j)) [0..<Suc k] @ [Call (ClickReserve a' k), Call EvalDetail])
        (Some (bookingName_of ps))"
    using scan_buttons_hit_cut [OF k(3) k(2), of ps a' 0 "drop (Suc k) (anchors ps a')"] split k(1)
    by simp
  let ?cont = "\<lambda>found. case found of
            Some bookingName \<Rightarrow> ret (Some bookingName)
          | None \<Rightarrow>
              if a' < maxReserveButtonAttempts then
                bind (await ps (Reload a')) (\<lambda>_.
                bind (emit (Delay 500)) (\<lambda>_.
                  reserve_loop ps (a' + 1)))
              else reserve_loop ps (a' + 1)"
  have cont: "?cont (Some (bookingName_of ps)) = until_reject ps [] (Some (bookingName_of ps))"
    by (simp add: until_reject_ret)
  have "reserve_loop ps a' =
      bind (until_reject ps [Call (QueryAnchors a')] ()) (\<lambda>_.
        bind (until_reject ps
          (map (\<lambda>j. Call (EvalText a' j)) [0..<Suc k] @ [Call (ClickReserve a' k), Call EvalDetail])
          (Some (bookingName_of ps))) ?cont)"
    by (subst reserve_loop.simps) (simp only: le(2) if_True scan until_reject_await)
  also have "\<dots> = until_reject ps ([Call (QueryAnchors a')]
      @ (map (\<lambda>j. Call (EvalText a' j)) [0..<Suc k] @ [Call (ClickReserve a' k), Call EvalDetail])
      @ []) (Some (bookingName_of ps))"
    by (intro bind_until_reject cont)
  finally show ?case
    by (simp del: upt_Suc)
next
  case (Suc n)
  then have lt: "a < a'" by simp
  with le(2) have le': "a \<le> maxReserveButtonAttempts" by simp
  have m: "entry_missing ps a"
    using Suc.prems(2) lt by simp
  have rest: "reserve_loop ps (a + 1) =
       until_reject ps
         (concat (map (missed_attempt ps) [a + 1..<a'])
            @ Call (QueryAnchors a') # map (\<lambda>j. Call (EvalText a' j)) [0..<Suc k]
            @ [Call (ClickReserve a' k), Call EvalDetail])
         (Some (bookingName_of ps))"
  proof (rule Suc.hyps(1))
    show "n = a' - (a + 1)" using Suc.hyps(2) by simp
    show "a + 1 \<le> a'" using lt by simp
    show "\<forall>b \<in> {a + 1..<a'}. entry_missing ps b" using Suc.prems(2) by simp
  qed
  have up: "[a..<a'] = a # [a + 1..<a']"
    using lt by (simp add: upt_conv_Cons)
  show ?case
    using reserve_loop_step_miss [OF le' m rest] by (simp add: up del: upt_Suc)
qed


lemma probe_page_never_found:
  assumes miss: "entry_never_found ps"
  shows "probe_page ps task = until_reject ps (search_events ps task) NotFound"
proof -
  have "\<forall>b. 1 \<le> b \<and> b \<le> maxReserveButtonAttempts \<longrightarrow> entry_missing ps b"
    using miss by (simp add: entry_never_found_def)
  note loop = reserve_loop_miss_cut [OF this]
  let ?cont = "\<lambda>found. case found of
         None \<Rightarrow>
           bind (emit (LogOutcome PageError)) (\<lambda>_.
           bind (await ps Content) (\<lambda>_.
           bind (emit (LogHtml (content ps))) (\<lambda>_.
             ret NotFound)))
       | Some bookingName \<Rightarrow>
           bind (emit (Delay 500)) (\<lambda>_.
           bind (non_member_loop ps 1) (\<lambda>nonMemberButtonClicked.
             if \<not> nonMemberButtonClicked then ret NoNonMember
             else
               bind (emit (Delay 1000)) (\<lambda>_.
                 if alertAppeared ps then ret Alert
                 else
                   bind (emit (Delay 1000)) (\<lambda>_.
                     if currentUrl ps \<noteq> newUrl ps then ret (Redirected bookingName)
                     else ret NoRedirect))))"
  have "?cont None =
      bind (until_reject ps [LogOutcome PageError] ()) (\<lambda>_.
        bind (until_reject ps [Call Content] ()) (\<lambda>_.
          bind (until_reject ps [LogHtml (content ps)] ()) (\<lambda>_.
            until_reject ps [] NotFound)))"
    by (simp add: until_reject_await until_reject_ret [symmetric]
        until_reject_emit [of ps "LogOutcome PageError", simplified]
        until_reject_emit [of ps "LogHtml (content ps)", simplified]
        del: bind_emit bind_ret)
  also have "\<dots> = until_reject ps
      ([LogOutcome PageError] @ [Call Content] @ [LogHtml (content ps)] @ []) NotFound"
    by (intro bind_until_reject refl)
  finally have cont: "?cont None =
      until_reject ps ([LogOutcome PageError] @ [Call Content] @ [LogHtml (content ps)] @ []) NotFound" .
  have "probe_page ps task =
      bind (until_reject ps [Call (Goto (url task))] ()) (\<lambda>_.
        bind (until_reject ps [Call SetViewport] ()) (\<lambda>_.
          bind (until_reject ps
            (concat (map (missed_attempt ps) [1..<Suc maxReserveButtonAttempts])) None) ?cont))"
    unfolding probe_page_def by (simp only: loop until_reject_await)
  also have "\<dots> = until_reject ps ([Call (Goto (url task))] @ [Call SetViewport]
      @ concat (map (missed_attempt ps) [1..<Suc maxReserveButtonAttempts])
      @ ([LogOutcome PageError] @ [Call Content] @ [LogHtml (content ps)] @ [])) NotFound"
    by (intro bind_until_reject cont)
  finally show ?thesis
    by (simp add: search_events_def del: upt_Suc)
qed

lemma until_reject_cases:
  obtains "until_reject ps es v = (es, Some v)" "\<forall>e \<in> set es. \<not> rejected ps e"
  | pre e rest where "until_reject ps es v = (pre @ [e], None)" "set (pre @ [e]) \<subseteq> set es"
      "rejected ps e" "es = pre @ e # rest"
proof (cases "dropWhile (\<lambda>e. \<not> rejected ps e) es")
  case Nil
  then have "\<forall>e \<in> set es. \<not> rejected ps e"
    by simp
  then show ?thesis
    using until_reject_clean [of es ps v] that(1) by simp
next
  case (Cons e rest)
  have e: "e \<in> set es"
    using Cons set_dropWhileD [of e "\<lambda>e. \<not> rejected ps e" es] by simp
  have r: "rejected ps e"
    using Cons hd_dropWhile [of "\<lambda>e. \<not> rejected ps e" es] by simp
  have "set (takeWhile (\<lambda>e. \<not> rejected ps e) es) \<subseteq> set es"
    by (auto dest: set_takeWhileD)
  moreover have "es = takeWhile (\<lambda>e. \<not> rejected ps e) es @ e # rest"
    using Cons takeWhile_dropWhile_id [of "\<lambda>e. \<not> rejected ps e" es] by simp
  ultimately show ?thesis
    using e r Cons that(2) [of "takeWhile (\<lambda>e. \<not> rejected ps e) es" e rest]
    by (simp add: until_reject_def)
qed

lemma checkReservation_never_found:
  assumes miss: "entry_never_found ps"
  shows "checkReservation ps task tc tr h =
      (h, fst (exhausted_run ps task), snd (exhausted_run ps task))"
proof (cases "rejects ps NewPage")
  case True
  then show ?thesis
    by (simp add: checkReservation_def exhausted_run_def)
next
  case False
  note p = probe_page_never_found [OF miss, of task]
  show ?thesis
  proof (cases rule: until_reject_cases [of ps "search_events ps task" NotFound])
    case 1
    with False p show ?thesis
      by (simp add: checkReservation_def exhausted_run_def after_page_def)
  next
    case (2 pre e rest)
    with False p show ?thesis
      by (simp add: checkReservation_def exhausted_run_def after_page_def)
  qed
qed

lemma engages_search_events: "e \<in> set (search_events ps task) \<Longrightarrow> \<not> engages e"
  by (auto simp: search_events_def dest: engages_missed_attempt)

lemma engages_exhausted_run: "\<not> (\<exists>e \<in> set (snd (exhausted_run ps task)). engages e)"
proof (cases rule: until_reject_cases [of ps "search_events ps task" NotFound])
  case 1
  then show ?thesis
    by (auto simp: exhausted_run_def dest: engages_search_events)
next
  case (2 pre e rest)
  then have "\<forall>x \<in> set (pre @ [e]). \<not> engages x"
    using engages_search_events [of _ ps task] by blast
  with 2(1) show ?thesis
    by (auto simp: exhausted_run_def)
qed

lemma exhausted_run_clean:
  assumes "no_rejects ps"
  shows "exhausted_run ps task = (Finished PageError, exhausted_events ps task)"
proof -
  have "\<forall>e \<in> set (search_events ps task). \<not> rejected ps e"
  proof
    fix e show "\<not> rejected ps e"
      using assms by (cases e) (simp_all add: no_rejects_def)
  qed
  then have "until_reject ps (search_events ps task) NotFound = (search_events ps task, Some NotFound)"
    by (rule until_reject_clean)
  then show ?thesis
    using assms
    by (simp add: exhausted_run_def no_rejects_def search_events_def exhausted_events_def
        del: upt_Suc)
qed

lemma exhausted_run_markup:
  "(\<exists>c. LogHtml c \<in> set (snd (exhausted_run ps task))) \<longleftrightarrow>
     \<not> rejects ps NewPage \<and> \<not> (\<exists>e \<in> set (search_events ps task). rejected ps e)"
proof (cases rule: until_reject_cases [of ps "search_events ps task" NotFound])
  case 1
  then show ?thesis
    by (auto simp: exhausted_run_def search_events_def)
next
  case (2 pre e rest)
  let ?A = "[Call (Goto (url task)), Call SetViewport]
       @ concat (map (missed_attempt ps) [1..<Suc maxReserveButtonAttempts])
       @ [LogOutcome PageError, Call Content]"
  have A: "search_events ps task = ?A @ [LogHtml (content ps)]"
    by (simp add: search_events_def del: upt_Suc)
  have nA: "\<forall>c. LogHtml c \<notin> set ?A"
    by (auto simp: missed_attempt_def split: if_splits)
  have "rest \<noteq> []"
  proof
    assume "rest = []"
    with 2(4) A have "e = LogHtml (content ps)"
      by (simp del: upt_Suc)
    with 2(3) show False by simp
  qed
  then have "butlast (pre @ e # rest) = pre @ e # butlast rest"
    by (simp add: butlast_append)
  moreover have "butlast (pre @ e # rest) = ?A"
    using 2(4) A by (metis butlast_snoc)
  ultimately have "set (pre @ [e]) \<subseteq> set ?A"
    by (metis append.assoc append_Cons append_Nil set_append sup_ge1)
  with nA have "\<forall>c. LogHtml c \<notin> set (pre @ [e])"
    by blast
  with 2(1,2,3) show ?thesis
    by (auto simp: exhausted_run_def)
qed

text \<open>
  C7 (as the code has it). The first search looks at the anchors of the page for one
  whose text includes the marker, at most 5 times, with a reload and a 500 ms wait
  between two attempts. When the entry point shows (first at attempt \<open>a\<close>, first at anchor
  \<open>k\<close>), the search performs \<^const>\<open>locate_events\<close> and clicks that anchor, unless one of
  these calls rejects: it then stops at that call. When the entry point shows at none of
  the 5 attempts, the history is unchanged and the call ends as \<^const>\<open>exhausted_run\<close>
  says, whatever rejects: its trace has no click, no second search, no notification and
  no recorded send; the page markup is logged exactly when the page opens and no call of
  the search (navigation, viewport, queries, text reads, reloads, reading the markup)
  rejects. When nothing rejects, the probe ends as \<open>PageError\<close> and its whole trace is
  \<^const>\<open>exhausted_events\<close>: 5 queries, 4 reloads each followed by the wait, the failure
  logged, the markup read and logged, the page closed.
\<close>

theorem reserve_entry_retry:
  "maxReserveButtonAttempts = 5
   \<and> (entry_found ps a k \<longrightarrow>
        reserve_loop ps 1 = until_reject ps (locate_events ps a k) (Some (bookingName_of ps)))
   \<and> (entry_never_found ps \<longrightarrow>
        checkReservation ps task tc tr h =
          (h, fst (exhausted_run ps task), snd (exhausted_run ps task))
        \<and> \<not> (\<exists>e \<in> set (snd (exhausted_run ps task)). engages e)
        \<and> ((\<exists>c. LogHtml c \<in> set (snd (exhausted_run ps task))) \<longleftrightarrow>
             \<not> rejects ps NewPage \<and> \<not> (\<exists>e \<in> set (search_events ps task). rejected ps e)))
   \<and> (no_rejects ps \<longrightarrow>
        until_reject ps (locate_events ps a k) (Some (bookingName_of ps)) =
          (locate_events ps a k, Some (Some (bookingName_of ps)))
        \<and> exhausted_run ps task = (Finished PageError, exhausted_events ps task))"
proof -
  have "reserve_loop ps 1 = until_reject ps (locate_events ps a k) (Some (bookingName_of ps))"
    if "entry_found ps a k"
    unfolding locate_events_def
    by (rule reserve_loop_hit_cut) (use that in \<open>simp_all add: entry_found_def\<close>)
  moreover have "until_reject ps (locate_events ps a k) (Some (bookingName_of ps)) =
          (locate_events ps a k, Some (Some (bookingName_of ps)))"
    if nr: "no_rejects ps"
  proof (rule until_reject_clean, rule ballI)
    fix e show "\<not> rejected ps e"
      using nr by (cases e) (simp_all add: no_rejects_def)
  qed
  ultimately show ?thesis
    using checkReservation_never_found [of ps task tc tr h] engages_exhausted_run [of ps task]
      exhausted_run_markup [of ps task] exhausted_run_clean [of ps task]
    by (simp add: maxReserveButtonAttempts_def)
qed

text \<open>The trace on the blank page, written out.\<close>

lemma exhausted_blank:
  "exhausted_events blank_page example_task =
     [Call NewPage, Call (Goto (url example_task)), Call SetViewport,
      Call (QueryAnchors 1), Call (EvalText 1 0), Call (Reload 1), Delay 500,
      Call (QueryAnchors 2), Call (EvalText 2 0), Call (Reload 2), Delay 500,
      Call (QueryAnchors 3), Call (EvalText 3 0), Call (Reload 3), Delay 500,
      Call (QueryAnchors 4), Call (EvalText 4 0), Call (Reload 4), Delay 500,
      Call (QueryAnchors 5), Call (EvalText 5 0),
      LogOutcome PageError, Call Content, LogHtml (of_ascii ''<html></html>''),
      Call ClosePage, Delay 1000, Resolved]"
proof -
  have "[1..<Suc maxReserveButtonAttempts] = [1, 2, 3, 4, 5]"
    by (simp add: maxReserveButtonAttempts_def upt_rec)
  then show ?thesis
    by (simp add: exhausted_events_def missed_attempt_def blank_page_def maxReserveButtonAttempts_def)
qed

theorem reserve_entry_retry_witness:
  "no_rejects blank_page
   \<and> entry_never_found blank_page
   \<and> checkReservation blank_page example_task 0 0 [] =
       ([], Finished PageError,
        [Call NewPage, Call (Goto (url example_task)), Call SetViewport,
         Call (QueryAnchors 1), Call (EvalText 1 0), Call (Reload 1), Delay 500,
         Call (QueryAnchors 2), Call (EvalText 2 0), Call (Reload 2), Delay 500,
         Call (QueryAnchors 3), Call (EvalText 3 0), Call (Reload 3), Delay 500,
         Call (QueryAnchors 4), Call (EvalText 4 0), Call (Reload 4), Delay 500,
         Call (QueryAnchors 5), Call (EvalText 5 0),
         LogOutcome PageError, Call Content, LogHtml (of_ascii ''<html></html>''),
         Call ClosePage, Delay 1000, Resolved])
   \<and> no_rejects bookable_page \<and> entry_found bookable_page 3 1
   \<and> reserve_loop bookable_page 1 =
       (locate_events bookable_page 3 1, Some (Some (of_ascii ''Room A'')))"
  using reserve_entry_retry [where ps = blank_page and task = example_task and tc = 0
      and tr = 0 and h = "[]"]
    reserve_entry_retry [where ps = bookable_page and a = 3 and k = 1]
    blank_page_facts bookable_page_facts exhausted_blank
  by (simp add: bookingName_of_def bookable_page_def)

text \<open>
  The blank page when \<^verbatim>\<open>page.content()\<close> rejects: the entry point shows at none of the 5
  attempts, the failure is logged, the markup is not captured, and the probe ends in the
  \<^verbatim>\<open>catch\<close>. The blank page when the first \<^verbatim>\<open>page.reload()\<close> rejects: the probe makes one
  attempt and ends in the \<^verbatim>\<open>catch\<close>.
\<close>

lemma search_blank:
  "search_events (blank_page\<lparr>rejects := r\<rparr>) example_task =
     [Call (Goto (url example_task)), Call SetViewport,
      Call (QueryAnchors 1), Call (EvalText 1 0), Call (Reload 1), Delay 500,
      Call (QueryAnchors 2), Call (EvalText 2 0), Call (Reload 2), Delay 500,
      Call (QueryAnchors 3), Call (EvalText 3 0), Call (Reload 3), Delay 500,
      Call (QueryAnchors 4), Call (EvalText 4 0), Call (Reload 4), Delay 500,
      Call (QueryAnchors 5), Call (EvalText 5 0),
      LogOutcome PageError, Call Content, LogHtml (of_ascii ''<html></html>'')]"
proof -
  have "[1..<Suc maxReserveButtonAttempts] = [1, 2, 3, 4, 5]"
    by (simp add: maxReserveButtonAttempts_def upt_rec)
  then show ?thesis
    by (simp add: search_events_def missed_attempt_def blank_page_def maxReserveButtonAttempts_def)
qed

lemma never_found_blank: "entry_never_found (blank_page\<lparr>rejects := r\<rparr>)"
  by (simp add: blank_page_def entry_never_found_def entry_missing_def
      has_reserve_text_def RESERVE_BUTTON_TEXT_def of_ascii_def)

theorem markup_lost_counterexample:
  "entry_never_found markup_fails_page
   \<and> checkReservation markup_fails_page example_task 0 0 [] =
       ([], Finished Caught,
        [Call NewPage, Call (Goto (url example_task)), Call SetViewport,
         Call (QueryAnchors 1), Call (EvalText 1 0), Call (Reload 1), Delay 500,
         Call (QueryAnchors 2), Call (EvalText 2 0), Call (Reload 2), Delay 500,
         Call (QueryAnchors 3), Call (EvalText 3 0), Call (Reload 3), Delay 500,
         Call (QueryAnchors 4), Call (EvalText 4 0), Call (Reload 4), Delay 500,
         Call (QueryAnchors 5), Call (EvalText 5 0),
         LogOutcome PageError, Call Content, LogOutcome Caught,
         Call ClosePage, Delay 1000, Resolved])
   \<and> entry_never_found reload_fails_page
   \<and> checkReservation reload_fails_page example_task 0 0 [] =
       ([], Finished Caught,
        [Call NewPage, Call (Goto (url example_task)), Call SetViewport,
         Call (QueryAnchors 1), Call (EvalText 1 0), Call (Reload 1), LogOutcome Caught,
         Call ClosePage, Delay 1000, Resolved])"
proof -
  have m: "entry_never_found markup_fails_page" and r: "entry_never_found reload_fails_page"
    unfolding markup_fails_page_def reload_fails_page_def by (rule never_found_blank)+
  have "exhausted_run markup_fails_page example_task =
       (Finished Caught,
        [Call NewPage, Call (Goto (url example_task)), Call SetViewport,
         Call (QueryAnchors 1), Call (EvalText 1 0), Call (Reload 1), Delay 500,
         Call (QueryAnchors 2), Call (EvalText 2 0), Call (Reload 2), Delay 500,
         Call (QueryAnchors 3), Call (EvalText 3 0), Call (Reload 3), Delay 500,
         Call (QueryAnchors 4), Call (EvalText 4 0), Call (Reload 4), Delay 500,
         Call (QueryAnchors 5), Call (EvalText 5 0),
         LogOutcome PageError, Call Content, LogOutcome Caught,
         Call ClosePage, Delay 1000, Resolved])"
    unfolding markup_fails_page_def exhausted_run_def search_blank
    by (simp add: until_reject_def)
  moreover have "exhausted_run reload_fails_page example_task =
       (Finished Caught,
        [Call NewPage, Call (Goto (url example_task)), Call SetViewport,
         Call (QueryAnchors 1), Call (EvalText 1 0), Call (Reload 1), LogOutcome Caught,
         Call ClosePage, Delay 1000, Resolved])"
    unfolding reload_fails_page_def exhausted_run_def search_blank
    by (simp add: until_reject_def)
  ultimately show ?thesis
    using m r checkReservation_never_found [OF m, of example_task 0 0 "[]"]
      checkReservation_never_found [OF r, of example_task 0 0 "[]"]
    by simp
qed

subsection \<open>The search for the non-member control\<close>

lemma first_index_least:
  "i < length xs \<Longrightarrow> P (xs ! i) \<Longrightarrow> \<forall>j<i. \<not> P (xs ! j) \<Longrightarrow> first_index P xs = i"
proof (induction xs arbitrary: i)
  case Nil
  then show ?case by simp
next
  case (Cons x xs)
  show ?case
  proof (cases i)
    case 0
    with Cons.prems show ?thesis by (simp add: first_index_def)
  next
    case (Suc i')
    with Cons.prems have "\<not> P x" by auto
    moreover have "first_index P xs = i'"
    proof (rule Cons.IH)
      show "i' < length xs" using Cons.prems(1) Suc by simp
      show "P (xs ! i')" using Cons.prems(2) Suc by simp
      show "\<forall>j<i'. \<not> P (xs ! j)"
      proof (intro allI impI)
        fix j assume "j < i'"
        then have "Suc j < i" using Suc by simp
        then have "\<not> P ((x # xs) ! Suc j)" using Cons.prems(3) by blast
        then show "\<not> P (xs ! j)" by simp
      qed
    qed
    ultimately show ?thesis
      using Suc by (simp add: first_index_def)
  qed
qed

lemma non_member_clicks_iff:
  "non_member_clicks bs \<longleftrightarrow>
     (\<exists>i<length bs. is_non_member_button (bs ! i) \<and> (\<forall>j<i. \<not> is_non_member_button (bs ! j))
        \<and> isHTMLElement (bs ! i))"
  by (auto simp: non_member_clicks_def find_Some_iff find_None_iff in_set_conv_nth
      split: option.splits) (metis linorder_neqE_nat)+

lemma reports_missed_attempt: "e \<in> set (missed_attempt ps a) \<Longrightarrow> \<not> reports e"
  by (auto simp: missed_attempt_def split: if_splits)

lemma reports_missed_non_member: "e \<in> set (missed_non_member a) \<Longrightarrow> \<not> reports e"
  by (auto simp: missed_non_member_def split: if_splits)

lemma reports_stalled: "\<not> (\<exists>e \<in> set (stalled_events ps task a k). reports e)"
  by (auto simp: stalled_events_def locate_events_def
      dest: reports_missed_attempt reports_missed_non_member)

text \<open>
  C8 (as the code has it). After the click on the entry point the second search looks,
  at most 5 times with a 500 ms wait between two attempts, at the anchors and buttons of
  the page for the first one whose text includes both markers. An attempt clicks exactly
  when that first element is an \<^verbatim>\<open>HTMLElement\<close>, and then clicks it (index
  \<^const>\<open>first_index\<close>); when it is not, the attempt counts as failed, whatever follows it
  in the list. When no attempt clicks, the probe ends as \<open>Inconclusive\<close>, which is not
  \<open>PageError\<close>, with the history unchanged and the trace \<^const>\<open>stalled_events\<close>: no
  notification and no markup capture. (No awaited call rejects.)
\<close>

theorem non_member_retry:
  "no_rejects ps \<Longrightarrow> entry_found ps a k \<Longrightarrow>
     maxNonMemberButtonAttempts = 5
   \<and> (non_member_clicks bs \<longleftrightarrow>
        (\<exists>i<length bs. is_non_member_button (bs ! i) \<and> (\<forall>j<i. \<not> is_non_member_button (bs ! j))
           \<and> isHTMLElement (bs ! i) \<and> first_index is_non_member_button bs = i))
   \<and> (non_member_found ps b \<longrightarrow> non_member_loop ps 1 = (engage_events ps b, Some True))
   \<and> (non_member_never_clicked ps \<longrightarrow>
        checkReservation ps task tc tr h = (h, Finished Inconclusive, stalled_events ps task a k)
        \<and> \<not> (\<exists>e \<in> set (stalled_events ps task a k). reports e))
   \<and> Inconclusive \<noteq> PageError"
proof -
  assume nr: "no_rejects ps" and found: "entry_found ps a k"
  have "non_member_loop ps 1 = (engage_events ps b, Some True)" if "non_member_found ps b"
    unfolding engage_events_def
    by (rule non_member_loop_hit [OF nr]) (use that in \<open>simp_all add: non_member_found_def\<close>)
  moreover have "checkReservation ps task tc tr h = (h, Finished Inconclusive, stalled_events ps task a k)"
    if "non_member_never_clicked ps"
    using checkReservation_plain [OF nr probe_page_no_non_member [OF nr found that],
        where tc = tc and tr = tr and h = h]
    by (simp add: stalled_events_def)
  moreover have "non_member_clicks bs \<longleftrightarrow>
        (\<exists>i<length bs. is_non_member_button (bs ! i) \<and> (\<forall>j<i. \<not> is_non_member_button (bs ! j))
           \<and> isHTMLElement (bs ! i) \<and> first_index is_non_member_button bs = i)"
    using non_member_clicks_iff [of bs] first_index_least [of _ bs is_non_member_button] by blast
  ultimately show ?thesis
    using reports_stalled [of ps task a k] by (simp add: maxNonMemberButtonAttempts_def)
qed

lemma stalled_page_facts:
  "no_rejects stalled_page"
  "entry_found stalled_page 3 1"
  "non_member_never_clicked stalled_page"
  by (simp_all add: no_rejects_def stalled_page_def bookable_page_def blank_page_def
      entry_found_def entry_missing_def has_reserve_text_def non_member_clicks_def
      non_member_never_clicked_def
      is_non_member_button_def maxReserveButtonAttempts_def
      RESERVE_BUTTON_TEXT_def NON_MEMBER_TEXT_def RESERVE_TEXT_def of_ascii_def)

lemma engage_bookable:
  "engage_events bookable_page 2 =
     [Call (EvalNonMember 1), Delay 500, Call (EvalNonMember 2), PageClick 2 1]"
proof -
  have "[1..<2] = [1::nat]"
    by (simp add: upt_rec)
  then show ?thesis
    by (simp add: engage_events_def missed_non_member_def maxNonMemberButtonAttempts_def
        bookable_page_def blank_page_def first_index_def is_non_member_button_def
        NON_MEMBER_TEXT_def RESERVE_TEXT_def of_ascii_def)
qed

theorem non_member_retry_witness:
  "no_rejects bookable_page \<and> entry_found bookable_page 3 1 \<and> non_member_found bookable_page 2
   \<and> non_member_loop bookable_page 1 =
       ([Call (EvalNonMember 1), Delay 500, Call (EvalNonMember 2), PageClick 2 1], Some True)
   \<and> no_rejects stalled_page \<and> entry_found stalled_page 3 1
   \<and> non_member_never_clicked stalled_page
   \<and> checkReservation stalled_page example_task 0 0 [] =
       ([], Finished Inconclusive, stalled_events stalled_page example_task 3 1)"
  using non_member_retry [OF bookable_page_facts(1,2), where b = 2]
    non_member_retry [OF stalled_page_facts(1,2), where task = example_task and tc = 0
      and tr = 0 and h = "[]"]
    bookable_page_facts stalled_page_facts engage_bookable
  by simp

text \<open>
  On \<^const>\<open>svg_first_page\<close> the first element with both markers is an SVG anchor and an
  HTML button with both markers follows it: the code clicks neither, in any of the 5
  attempts.
\<close>

lemma svg_first_page_facts:
  "no_rejects svg_first_page"
  "entry_found svg_first_page 1 0"
  "non_member_never_clicked svg_first_page"
  by (simp_all add: no_rejects_def svg_first_page_def blank_page_def
      entry_found_def entry_missing_def has_reserve_text_def non_member_clicks_def
      non_member_never_clicked_def
      is_non_member_button_def maxReserveButtonAttempts_def
      RESERVE_BUTTON_TEXT_def NON_MEMBER_TEXT_def RESERVE_TEXT_def of_ascii_def)

theorem html_guard_counterexample:
  "is_non_member_button (clickables svg_first_page 1 ! 0)
   \<and> is_non_member_button (clickables svg_first_page 1 ! 1)
   \<and> isHTMLElement (clickables svg_first_page 1 ! 1)
   \<and> non_member_loop svg_first_page 1 =
       (concat (map missed_non_member [1..<Suc maxNonMemberButtonAttempts]), Some False)
   \<and> fst (snd (checkReservation svg_first_page example_task 0 0 [])) = Finished Inconclusive"
proof -
  have "\<forall>c. 1 \<le> c \<and> c \<le> maxNonMemberButtonAttempts \<longrightarrow>
      \<not> non_member_clicks (clickables svg_first_page c)"
    using svg_first_page_facts(3) by (simp add: non_member_never_clicked_def)
  note loop = non_member_loop_miss [OF svg_first_page_facts(1) this]
  have "fst (snd (checkReservation svg_first_page example_task 0 0 [])) = Finished Inconclusive"
    using checkReservation_state [OF svg_first_page_facts(1)
        probe_page_no_non_member [OF svg_first_page_facts]]
    by simp
  moreover have "is_non_member_button (clickables svg_first_page 1 ! 0)"
    "is_non_member_button (clickables svg_first_page 1 ! 1)"
    "isHTMLElement (clickables svg_first_page 1 ! 1)"
    by (simp_all add: svg_first_page_def is_non_member_button_def
        NON_MEMBER_TEXT_def RESERVE_TEXT_def of_ascii_def)
  ultimately show ?thesis
    using loop by simp
qed

subsection \<open>Observing the result\<close>

text \<open>
  C2 (as the code has it). For a probe that has clicked both the entry point and the
  non-member control, the outcome is \<open>Unavailable\<close> when a dialog fired at any time between
  the installation of the listener and the end of the first 1000 ms wait (the flag is
  never reset, so a dialog raised by an earlier step counts); otherwise the probe waits
  another 1000 ms and the outcome is \<open>Available\<close> with the detail text (empty when the
  detail element is absent) when the url differs from the one read after navigation, and
  \<open>Inconclusive\<close> when it is the same. A dialog during the second wait changes nothing.
  (No awaited call rejects.)
\<close>

theorem observe_priority:
  "no_rejects ps \<Longrightarrow> entry_found ps a k \<Longrightarrow> non_member_found ps b \<Longrightarrow>
     fst (snd (checkReservation ps task tc tr h)) =
       Finished (if dialog ps Locating \<or> dialog ps Engaging \<or> dialog ps FirstSettle
                   then Unavailable
                 else if currentUrl ps \<noteq> newUrl ps then Available (bookingName_of ps)
                 else Inconclusive)
   \<and> fst (probe_page ps task) =
       [Call (Goto (url task)), Call SetViewport] @ locate_events ps a k @ [Delay 500]
         @ engage_events ps b
         @ Delay 1000 # (if dialog ps Locating \<or> dialog ps Engaging \<or> dialog ps FirstSettle
                          then [] else [Delay 1000])
   \<and> bookingName_of ps = (case detail ps of None \<Rightarrow> [] | Some d \<Rightarrow> d)"
proof -
  assume nr: "no_rejects ps" and found: "entry_found ps a k" and nm: "non_member_found ps b"
  note page = probe_page_engaged [OF nr found nm, of task]
  from checkReservation_state [OF nr page] page show ?thesis
    by (simp add: alertAppeared_def bookingName_of_def)
qed

theorem observe_priority_witness:
  "no_rejects bookable_page \<and> entry_found bookable_page 3 1 \<and> non_member_found bookable_page 2
   \<and> fst (snd (checkReservation bookable_page example_task 0 0 [])) =
       Finished (Available (of_ascii ''Room A''))
   \<and> fst (snd (checkReservation (bookable_page\<lparr>dialog := (\<lambda>p. p = FirstSettle)\<rparr>) example_task 0 0 []))
       = Finished Unavailable
   \<and> fst (snd (checkReservation (bookable_page\<lparr>newUrl := currentUrl bookable_page\<rparr>) example_task 0 0 []))
       = Finished Inconclusive"
proof -
  have a: "no_rejects (bookable_page\<lparr>dialog := (\<lambda>p. p = FirstSettle)\<rparr>)"
    "entry_found (bookable_page\<lparr>dialog := (\<lambda>p. p = FirstSettle)\<rparr>) 3 1"
    "non_member_found (bookable_page\<lparr>dialog := (\<lambda>p. p = FirstSettle)\<rparr>) 2"
    using bookable_page_facts
    by (simp_all add: no_rejects_def entry_found_def entry_missing_def non_member_found_def)
  have u: "no_rejects (bookable_page\<lparr>newUrl := currentUrl bookable_page\<rparr>)"
    "entry_found (bookable_page\<lparr>newUrl := currentUrl bookable_page\<rparr>) 3 1"
    "non_member_found (bookable_page\<lparr>newUrl := currentUrl bookable_page\<rparr>) 2"
    using bookable_page_facts
    by (simp_all add: no_rejects_def entry_found_def entry_missing_def non_member_found_def)
  show ?thesis
    using observe_priority [OF bookable_page_facts, where task = example_task and tc = 0
        and tr = 0 and h = "[]"]
      observe_priority [OF a, where task = example_task and tc = 0 and tr = 0 and h = "[]"]
      observe_priority [OF u, where task = example_task and tc = 0 and tr = 0 and h = "[]"]
      bookable_page_facts
    by (simp add: bookingName_of_def bookable_page_def blank_page_def)
qed

text \<open>
  On \<^const>\<open>refused_page\<close> the only dialog fires while the non-member control is being
  clicked, before the observation step; no dialog fires during either wait of the
  observation step and the url changes, yet the outcome is \<open>Unavailable\<close>.
\<close>

lemma refused_page_facts:
  "no_rejects refused_page"
  "entry_found refused_page 3 1"
  "non_member_found refused_page 2"
  using bookable_page_facts
  by (simp_all add: refused_page_def no_rejects_def entry_found_def entry_missing_def
      non_member_found_def)

theorem early_dialog_counterexample:
  "\<not> dialog refused_page FirstSettle \<and> \<not> dialog refused_page SecondSettle
   \<and> currentUrl refused_page \<noteq> newUrl refused_page
   \<and> fst (snd (checkReservation refused_page example_task 0 0 [])) = Finished Unavailable"
proof -
  note page = probe_page_engaged [OF refused_page_facts, of example_task]
  have "alertAppeared refused_page"
    by (simp add: alertAppeared_def refused_page_def)
  with checkReservation_state [OF refused_page_facts(1) page, of 0 0 "[]"]
  have "fst (snd (checkReservation refused_page example_task 0 0 [])) = Finished Unavailable"
    by simp
  then show ?thesis
    by (simp add: refused_page_def bookable_page_def blank_page_def)
qed

subsection \<open>One segment of a task\<close>

lemma after_page_cases:
  obtains out es where "after_page ps task now h = (h, Sending out, es)"
      "canSendEmail h now (url task)" "Notify (url task) (email_name task (case out of Available n \<Rightarrow> n | _ \<Rightarrow> [])) \<in> set es"
    | out es where "after_page ps task now h = (h, Closing out, es)" "\<forall>u n. Notify u n \<notin> set es"
proof (cases "probe_page ps task")
  case (Pair es r)
  have pe: "\<forall>e \<in> set es. page_event e"
    using probe_page_events [of ps task] Pair by (simp add: only_def)
  then have nn: "\<forall>u n. Notify u n \<notin> set es"
    by auto
  show ?thesis
  proof (cases r)
    case None
    with Pair nn that(2) show ?thesis
      by (simp add: after_page_def)
  next
    case (Some v)
    show ?thesis
    proof (cases "\<exists>n. v = Redirected n \<and> canSendEmail h now (url task)")
      case True
      then obtain n where "v = Redirected n" "canSendEmail h now (url task)" by blast
      with Pair Some that(1) [of "Available n"] show ?thesis
        by (simp add: after_page_def)
    next
      case False
      with Pair Some nn that(2) show ?thesis
        by (cases v) (auto simp: after_page_def)
    qed
  qed
qed

lemma after_page_events:
  "after_page ps task now h = (h', st, es) \<Longrightarrow>
     Call NewPage \<notin> set es \<and> Resolved \<notin> set es \<and> Thrown \<notin> set es"
proof -
  assume a: "after_page ps task now h = (h', st, es)"
  obtain es0 r where p: "probe_page ps task = (es0, r)"
    by (cases "probe_page ps task")
  have pe: "\<forall>e \<in> set es0. page_event e"
    using probe_page_events [of ps task] p by (simp add: only_def)
  then have "Call NewPage \<notin> set es0 \<and> Resolved \<notin> set es0 \<and> Thrown \<notin> set es0"
    by auto
  with a p show ?thesis
    by (auto simp: after_page_def split: option.splits verdict.splits if_splits)
qed

lemma resume_events:
  "resume ps task now h st = (h', st', es) \<Longrightarrow> Call NewPage \<notin> set es"
  by (cases st) (auto dest: after_page_events split: if_splits)

lemma resume_finished:
  "resume ps task now h st = (h', st', es) \<Longrightarrow> is_finished st' \<Longrightarrow>
     is_finished st \<or> Resolved \<in> set es"
proof (cases st)
  case Opening
  assume r: "resume ps task now h st = (h', st', es)" and f: "is_finished st'"
  show ?thesis
  proof (cases "rejects ps NewPage")
    case True
    with r f Opening show ?thesis by simp
  next
    case False
    with r Opening have "after_page ps task now h = (h', st', es)" by simp
    with f show ?thesis
      using after_page_cases [of ps task now h] by (metis Pair_inject is_finished.simps(3,4) task_state.distinct)
  qed
qed (auto split: if_splits)


section \<open>Properties of the scheduler\<close>

subsection \<open>The partition into batches\<close>

lemma batches_Nil [simp]: "batches K [] = []"
  by (simp add: batches.simps)

lemma batches_Cons: "0 < K \<Longrightarrow> xs \<noteq> [] \<Longrightarrow> batches K xs = take K xs # batches K (drop K xs)"
  by (subst batches.simps) simp

lemma concat_batches: "0 < K \<Longrightarrow> concat (batches K xs) = xs"
proof (induction K xs rule: batches.induct)
  case (1 K xs)
  then show ?case
    by (cases "xs = []") (simp_all add: batches_Cons)
qed

lemma batches_sizes: "0 < K \<Longrightarrow> b \<in> set (batches K xs) \<Longrightarrow> b \<noteq> [] \<and> length b \<le> K"
proof (induction K xs rule: batches.induct)
  case (1 K xs)
  show ?case
  proof (cases "xs = []")
    case True
    with 1 show ?thesis by simp
  next
    case False
    with 1 show ?thesis
      by (auto simp: batches_Cons)
  qed
qed

lemma batches_full:
  "0 < K \<Longrightarrow> batches K xs = b # c # rest \<Longrightarrow> length b = K"
proof -
  assume K: "0 < K" and eq: "batches K xs = b # c # rest"
  then have ne: "xs \<noteq> []" by auto
  from eq batches_Cons [OF K ne] have b: "b = take K xs" and r: "batches K (drop K xs) = c # rest"
    by simp_all
  from r have "drop K xs \<noteq> []" by auto
  then show ?thesis
    using b by simp
qed

lemma batch_loop_batches:
  "0 < K \<Longrightarrow>
     batch_loop K w ts i s = Some (run_batches w K (batches K (drop i ts)) i s)"
proof (induction "length ts - i" arbitrary: i s rule: less_induct)
  case less
  show ?case
  proof (cases "i < length ts")
    case False
    then show ?thesis
      by (subst batch_loop.simps) simp
  next
    case True
    then have ne: "drop i ts \<noteq> []" by simp
    have sl: "slice ts i (i + K) = take K (drop i ts)"
      by (simp add: slice_def)
    have dd: "drop K (drop i ts) = drop (i + K) ts"
      by (simp add: add.commute)
    have dd': "drop (K + i) ts = drop (i + K) ts"
      by (simp add: add.commute)
    have IH: "batch_loop K w ts (i + K) s' = Some (run_batches w K (batches K (drop (i + K) ts)) (i + K) s')"
      for s'
      using less(1) [of "i + K" s'] less(2) True by simp
    show ?thesis
      by (subst batch_loop.simps)
         (simp add: True sl batches_Cons [OF less(2) ne] dd dd' IH split: prod.splits completion.splits)
  qed
qed

subsection \<open>Awaiting a batch\<close>

lemma run_resumptions_log:
  "run_resumptions w batch i sched (h, sts, log) = (h', sts', log') \<Longrightarrow>
     length sts' = length sts \<and> (\<exists>L. log' = log @ L \<and> (\<forall>x \<in> set L. batch_entry i (length batch) x))"
proof (induction sched arbitrary: h sts log)
  case Nil
  then show ?case by simp
next
  case (Cons p sched)
  obtain k now where p: "p = (k, now)" by (cases p)
  show ?case
  proof (cases "Rejected \<in> set sts \<or> list_all is_finished sts")
    case True
    with Cons.prems p show ?thesis by auto
  next
    case settled: False
    show ?thesis
    proof (cases "k < length batch")
      case False
      with Cons.prems p settled have "run_resumptions w batch i sched (h, sts, log) = (h', sts', log')"
        by simp
      from Cons.IH [OF this] show ?thesis .
    next
      case True
      obtain h1 st1 es where r: "resume (pages w (i + k)) (batch ! k) now h (sts ! k) = (h1, st1, es)"
        by (cases "resume (pages w (i + k)) (batch ! k) now h (sts ! k)")
      with Cons.prems p settled True
      have "run_resumptions w batch i sched (h1, sts[k := st1], log @ map (Task (i + k)) es)
          = (h', sts', log')"
        by simp
      from Cons.IH [OF this] obtain L where
        L: "length sts' = length sts" "log' = (log @ map (Task (i + k)) es) @ L"
          "\<forall>x \<in> set L. batch_entry i (length batch) x"
        by auto
      have "\<forall>x \<in> set (map (Task (i + k)) es). batch_entry i (length batch) x"
        using resume_events [OF r] True by (auto simp: batch_entry_def)
      with L show ?thesis
        by (intro conjI exI [of _ "map (Task (i + k)) es @ L"]) auto
    qed
  qed
qed

lemma run_resumptions_resolved:
  "run_resumptions w batch i sched (h, sts, log) = (h', sts', log') \<Longrightarrow>
     resolved_logged i sts log \<Longrightarrow> resolved_logged i sts' log'"
proof (induction sched arbitrary: h sts log)
  case Nil
  then show ?case by simp
next
  case (Cons p sched)
  obtain k now where p: "p = (k, now)" by (cases p)
  show ?case
  proof (cases "Rejected \<in> set sts \<or> list_all is_finished sts")
    case True
    with Cons.prems p show ?thesis by auto
  next
    case settled: False
    show ?thesis
    proof (cases "k < length batch")
      case False
      with Cons.prems p settled have "run_resumptions w batch i sched (h, sts, log) = (h', sts', log')"
        by simp
      from Cons.IH [OF this Cons.prems(2)] show ?thesis .
    next
      case True
      obtain h1 st1 es where r: "resume (pages w (i + k)) (batch ! k) now h (sts ! k) = (h1, st1, es)"
        by (cases "resume (pages w (i + k)) (batch ! k) now h (sts ! k)")
      with Cons.prems p settled True
      have run: "run_resumptions w batch i sched (h1, sts[k := st1], log @ map (Task (i + k)) es)
          = (h', sts', log')"
        by simp
      have "resolved_logged i (sts[k := st1]) (log @ map (Task (i + k)) es)"
        unfolding resolved_logged_def
      proof (intro allI impI)
        fix j assume j: "j < length (sts[k := st1])" and f: "is_finished (sts[k := st1] ! j)"
        show "Task (i + j) Resolved \<in> set (log @ map (Task (i + k)) es)"
        proof (cases "j = k")
          case True
          with j f have "is_finished st1" by simp
          from resume_finished [OF r this] show ?thesis
          proof
            assume "is_finished (sts ! k)"
            with Cons.prems(2) j True show ?thesis
              by (simp add: resolved_logged_def)
          next
            assume "Resolved \<in> set es"
            with True show ?thesis by simp
          qed
        next
          case False
          with j f Cons.prems(2) show ?thesis
            by (simp add: resolved_logged_def)
        qed
      qed
      from Cons.IH [OF run this] show ?thesis .
    qed
  qed
qed


subsection \<open>One batch, and the barrier\<close>

lemma run_batch_log:
  assumes "run_batch w batch i (h, log) = (h', r, log')"
  shows "\<exists>L. log' = log @ starts i (length batch) @ L \<and> (\<forall>x \<in> set L. batch_entry i (length batch) x)"
proof -
  obtain h1 sts1 log1 where
    run: "run_resumptions w batch i (resumptions w i)
        (h, replicate (length batch) Opening, log @ starts i (length batch)) = (h1, sts1, log1)"
    by (cases "run_resumptions w batch i (resumptions w i)
        (h, replicate (length batch) Opening, log @ starts i (length batch))")
  with assms have "log' = log1"
    by (simp add: run_batch_def starts_def)
  with run_resumptions_log [OF run] show ?thesis
    by auto
qed

lemma run_batch_returned:
  assumes "run_batch w batch i (h, log) = (h', Returned, log')"
  shows "\<forall>k < length batch. Task (i + k) Resolved \<in> set log'"
proof -
  obtain h1 sts1 log1 where
    run: "run_resumptions w batch i (resumptions w i)
        (h, replicate (length batch) Opening, log @ starts i (length batch)) = (h1, sts1, log1)"
    by (cases "run_resumptions w batch i (resumptions w i)
        (h, replicate (length batch) Opening, log @ starts i (length batch))")
  with assms have eq: "log' = log1" and fin: "list_all is_finished sts1"
    by (simp_all add: run_batch_def starts_def split: if_splits)
  have len: "length sts1 = length batch"
    using run_resumptions_log [OF run] by simp
  have "resolved_logged i (replicate (length batch) Opening) (log @ starts i (length batch))"
    by (simp add: resolved_logged_def)
  from run_resumptions_resolved [OF run this] fin len eq show ?thesis
    by (simp add: resolved_logged_def list_all_length)
qed


lemma barrier_Nil: "barrier K []"
  by (simp add: barrier_def)

lemma barrier_no_tasks: "\<forall>b e. Task b e \<notin> set log \<Longrightarrow> barrier K log"
  unfolding barrier_def
proof (intro allI impI, elim conjE)
  fix pre b post a
  assume n: "\<forall>b e. Task b e \<notin> set log" and eq: "log = pre @ Task b (Call NewPage) # post"
  have "Task b (Call NewPage) \<in> set log"
    unfolding eq by simp
  with n show "Task a Resolved \<in> set pre \<and> (\<forall>e. Task a e \<notin> set post)"
    by blast
qed

lemma batches_done_step:
  assumes K: "0 < K" "K dvd i"
    and inv: "batches_done K i log"
    and m: "m \<le> K"
    and L: "\<forall>x \<in> set L. batch_entry i m x"
  shows "barrier K (log @ starts i m @ L)"
    and "\<forall>b e. Task b e \<in> set (log @ starts i m @ L) \<longrightarrow> b < i + K"
proof -
  have new: "\<exists>k e. x = Task (i + k) e \<and> k < m" if "x \<in> set (starts i m @ L)" for x
    using that L by (auto simp: starts_def batch_entry_def)
  show "\<forall>b e. Task b e \<in> set (log @ starts i m @ L) \<longrightarrow> b < i + K"
  proof (intro allI impI)
    fix b e assume "Task b e \<in> set (log @ starts i m @ L)"
    then consider "Task b e \<in> set log" | "Task b e \<in> set (starts i m @ L)" by auto
    then show "b < i + K"
    proof cases
      case 1
      with inv show ?thesis by (auto simp: batches_done_def)
    next
      case 2
      from new [OF this] m show ?thesis by auto
    qed
  qed
  show "barrier K (log @ starts i m @ L)"
    unfolding barrier_def
  proof (intro allI impI, elim conjE)
    fix pre b post a
    assume eq: "log @ starts i m @ L = pre @ Task b (Call NewPage) # post"
      and lt: "a div K < b div K"
    from eq obtain us where
      us: "log = pre @ us \<and> us @ starts i m @ L = Task b (Call NewPage) # post
        \<or> log @ us = pre \<and> starts i m @ L = us @ Task b (Call NewPage) # post"
      unfolding append_eq_append_conv2 by blast
    have "(\<exists>post'. log = pre @ Task b (Call NewPage) # post' \<and> post = post' @ starts i m @ L)
      \<or> (\<exists>pre'. pre = log @ pre' \<and> starts i m @ L = pre' @ Task b (Call NewPage) # post)"
    proof (cases us)
      case Nil
      with us show ?thesis by auto
    next
      case (Cons u us')
      with us show ?thesis by auto
    qed
    then consider
      (old) post' where "log = pre @ Task b (Call NewPage) # post'" "post = post' @ starts i m @ L"
      | (new) pre' where "pre = log @ pre'" "starts i m @ L = pre' @ Task b (Call NewPage) # post"
      by blast
    then show "Task a Resolved \<in> set pre \<and> (\<forall>e. Task a e \<notin> set post)"
    proof cases
      case old
      from inv old(1) lt have a: "Task a Resolved \<in> set pre" "\<forall>e. Task a e \<notin> set post'"
        by (auto simp: batches_done_def barrier_def)
      have "b < i"
        using inv old(1) by (auto simp: batches_done_def)
      moreover have "a < b"
        using lt by (metis div_le_mono leI not_less)
      ultimately have "a < i" by simp
      then have "Task a e \<notin> set (starts i m @ L)" for e
        using new [of "Task a e"] by auto
      with a old(2) show ?thesis by auto
    next
      case new
      have "Task b (Call NewPage) \<in> set (starts i m @ L)"
        using new(2) by simp
      from \<open>\<And>x. x \<in> set (starts i m @ L) \<Longrightarrow> \<exists>k e. x = Task (i + k) e \<and> k < m\<close> [OF this]
      obtain k where b: "b = i + k" "k < m" by auto
      with m K have "b div K = i div K"
        by (auto simp: dvd_def)
      with lt have "a div K < i div K" by simp
      then have ai: "a < i"
        by (metis div_le_mono leI not_less)
      with inv have "Task a Resolved \<in> set log"
        by (simp add: batches_done_def)
      moreover have "Task a e \<notin> set post" for e
      proof
        assume "Task a e \<in> set post"
        then have "Task a e \<in> set (starts i m @ L)"
          using new(2) by (metis Un_iff list.set_intros(2) set_append)
        from \<open>\<And>x. x \<in> set (starts i m @ L) \<Longrightarrow> \<exists>k e. x = Task (i + k) e \<and> k < m\<close> [OF this] ai
        show False by auto
      qed
      ultimately show ?thesis
        using new(1) by simp
    qed
  qed
qed

lemma run_batches_log:
  "run_batches w K bs i (h, log) = (h', r, log') \<Longrightarrow>
     \<exists>L. log' = log @ L \<and> (\<forall>x \<in> set L. \<exists>b e. x = Task b e)"
proof (induction bs arbitrary: i h log)
  case Nil
  then show ?case by simp
next
  case (Cons batch bs)
  obtain h1 r1 log1 where rb: "run_batch w batch i (h, log) = (h1, r1, log1)"
    by (cases "run_batch w batch i (h, log)")
  from run_batch_log [OF rb] obtain L1 where
    L1: "log1 = log @ starts i (length batch) @ L1" "\<forall>x \<in> set L1. batch_entry i (length batch) x"
    by blast
  then have one: "\<exists>L. log1 = log @ L \<and> (\<forall>x \<in> set L. \<exists>b e. x = Task b e)"
    by (intro exI [of _ "starts i (length batch) @ L1"]) (auto simp: starts_def batch_entry_def)
  show ?case
  proof (cases r1)
    case Returned
    with Cons.prems rb have "run_batches w K bs (i + K) (h1, log1) = (h', r, log')"
      by simp
    from Cons.IH [OF this] one show ?thesis
      by (metis Un_iff append.assoc set_append)
  next
    case Threw
    with Cons.prems rb one show ?thesis by simp
  next
    case Hung
    with Cons.prems rb one show ?thesis by simp
  qed
qed

lemma run_batches_barrier:
  "0 < K \<Longrightarrow> K dvd i \<Longrightarrow> batches_done K i log \<Longrightarrow>
     run_batches w K (batches K xs) i (h, log) = (h', r, log') \<Longrightarrow> barrier K log'"
proof (induction K xs arbitrary: i h log rule: batches.induct)
  case (1 K xs)
  show ?case
  proof (cases "xs = []")
    case True
    with 1(4,5) show ?thesis
      by (simp add: batches_done_def)
  next
    case False
    define batch where "batch = take K xs"
    have bs: "batches K xs = batch # batches K (drop K xs)"
      using batches_Cons [OF 1(2) False] by (simp add: batch_def)
    have m: "length batch \<le> K"
      by (simp add: batch_def)
    obtain h1 r1 log1 where rb: "run_batch w batch i (h, log) = (h1, r1, log1)"
      by (cases "run_batch w batch i (h, log)")
    from run_batch_log [OF rb] obtain L1 where
      L1: "log1 = log @ starts i (length batch) @ L1" "\<forall>x \<in> set L1. batch_entry i (length batch) x"
      by blast
    note step = batches_done_step [OF 1(2,3,4) m L1(2), folded L1(1)]
    show ?thesis
    proof (cases "r1 = Returned \<and> drop K xs \<noteq> []")
      case False
      then have "log' = log1"
        using 1(5) rb bs by (cases r1) (auto simp: batches.simps [of K "[]"])
      with step(1) show ?thesis by simp
    next
      case True
      then have run: "run_batches w K (batches K (drop K xs)) (i + K) (h1, log1) = (h', r, log')"
        using 1(5) rb bs by simp
      from True have full: "length batch = K"
        by (simp add: batch_def)
      have "\<forall>a < i + K. Task a Resolved \<in> set log1"
      proof (intro allI impI)
        fix a assume a: "a < i + K"
        show "Task a Resolved \<in> set log1"
        proof (cases "a < i")
          case True
          with 1(4) show ?thesis
            by (simp add: batches_done_def L1(1))
        next
          case False
          with a full have "a - i < length batch" by simp
          with run_batch_returned [of w batch i h log h1 log1] rb True
          have "Task (i + (a - i)) Resolved \<in> set log1" by simp
          with False show ?thesis by simp
        qed
      qed
      with step have inv: "batches_done K (i + K) log1"
        by (simp add: batches_done_def)
      have "K dvd i + K"
        using 1(3) by simp
      from 1(1) [OF _ 1(2) this inv run] False 1(2) show ?thesis
        by simp
    qed
  qed
qed

subsection \<open>The example world\<close>

lemma example_tasks:
  "searchTasks_of [\<lparr>idx = ''5''\<rparr>] (getWeekDates \<lparr>year = 2024, month = 2, day = 26\<rparr>) =
     map (\<lambda>d. \<lparr>idx = ''5'', date = d, url = task_url ''5'' d\<rparr>)
       [''20240226'', ''20240227'', ''20240228'', ''20240229'', ''20240301'', ''20240302'',
        ''20240303'']"
  by (simp add: searchTasks_of_def getWeekDates_example)

lemma unreachable_page_facts:
  "probe_page unreachable_page task = ([Call (Goto (url task))], None)"
  "\<not> rejects unreachable_page NewPage"
  "\<not> rejects unreachable_page ClosePage"
  by (simp_all add: probe_page_def unreachable_page_def blank_page_def bind_await_rejects)

lemma example_world_fields:
  "seoul_today example_world = \<lparr>year = 2024, month = 2, day = 26\<rparr>"
  "cleanup_now example_world = 1708900000000"
  "\<not> launch_rejects example_world"
  "\<not> browser_close_rejects example_world"
  "pages example_world n = unreachable_page"
  "resumptions example_world i = example_turns @ example_turns @ example_turns"
  by (simp_all add: example_world_def)

lemma example_cycle_any:
  "runCrawlingCycle 3 example_world [\<lparr>idx = ''5''\<rparr>] 1 h =
     Some (cleanupOldEmailHistory h 1708900000000, Returned, example_log)"
proof -
  have up: "[0..<7] = [0, 1, 2, 3, 4, 5, 6]" "[0..<3] = [0, 1, 2]" "[0..<1] = [0]"
    by (simp_all add: upt_rec)
  show ?thesis
    apply (simp add: runCrawlingCycle_def batch_loop_batches example_world_fields example_tasks
        Let_def)
    apply (simp add: batches.simps run_batch_def up after_page_def unreachable_page_facts
        example_world_fields example_turns_def slice_def)
    apply (simp add: example_log_def example_round_def getWeekDates_example)
    done
qed

lemma example_cycle_from:
  "cleanupOldEmailHistory h 1708900000000 = [] \<Longrightarrow>
     runCrawlingCycle 3 example_world [\<lparr>idx = ''5''\<rparr>] 1 h = Some ([], Returned, example_log)"
  using example_cycle_any [of h] by simp

lemma example_cycle:
  "runCrawlingCycle 3 example_world [\<lparr>idx = ''5''\<rparr>] 1 [(''old'', 1000)] =
     Some ([], Returned, example_log)"
  by (rule example_cycle_from)
     (simp add: cleanupOldEmailHistory_def keysToDelete_def EMAIL_COOLDOWN_MS_def)

subsection \<open>One cycle\<close>

lemma barrier_append_other:
  assumes "barrier K log" and "\<forall>x \<in> set M. \<forall>b e. x \<noteq> Task b e"
  shows "barrier K (log @ M)"
  unfolding barrier_def
proof (intro allI impI, elim conjE)
  fix pre b post a
  assume eq: "log @ M = pre @ Task b (Call NewPage) # post" and lt: "a div K < b div K"
  from eq obtain us where
    us: "log = pre @ us \<and> us @ M = Task b (Call NewPage) # post
      \<or> log @ us = pre \<and> M = us @ Task b (Call NewPage) # post"
    unfolding append_eq_append_conv2 by blast
  have "Task b (Call NewPage) \<notin> set M"
    using assms(2) by blast
  with us have "\<exists>post'. log = pre @ Task b (Call NewPage) # post' \<and> post = post' @ M"
    by (cases us) auto
  then obtain post' where p: "log = pre @ Task b (Call NewPage) # post'" "post = post' @ M"
    by blast
  with assms(1) lt have "Task a Resolved \<in> set pre" "\<forall>e. Task a e \<notin> set post'"
    by (auto simp: barrier_def)
  with p(2) assms(2) show "Task a Resolved \<in> set pre \<and> (\<forall>e. Task a e \<notin> set post)"
    by auto
qed

lemma cycle_result:
  assumes K: "0 < K"
  shows "runCrawlingCycle K w g c h =
     (let h1 = cleanupOldEmailHistory h (cleanup_now w);
          log1 = [Cleanup (cleanup_now w), WeekDates (getWeekDates (seoul_today w)), Launch]
      in if launch_rejects w then Some (h1, Threw, log1)
         else
           (case run_batches w K (batches K (searchTasks_of g (getWeekDates (seoul_today w)))) 0
                   (h1, log1) of
              (h2, Hung, log2) \<Rightarrow> Some (h2, Hung, log2)
            | (h2, r, log2) \<Rightarrow>
                Some (h2, (if browser_close_rejects w then Threw else r),
                      (if r = Returned then log2 @ [CycleCompleted c] else log2)
                        @ [CloseBrowser])))"
  by (simp add: runCrawlingCycle_def Let_def batch_loop_batches [OF K] split: prod.splits)


lemma cycle_log:
  assumes K: "0 < K" and run: "runCrawlingCycle K w g c h = Some (h', r, log)"
  shows "\<exists>L. log = [Cleanup (cleanup_now w), WeekDates (getWeekDates (seoul_today w)), Launch] @ L
      \<and> (\<forall>x \<in> set L. (\<exists>b e. x = Task b e) \<or> x = CycleCompleted c \<or> x = CloseBrowser)"
    and "barrier K log"
proof -
  define log1 where "log1 = [Cleanup (cleanup_now w), WeekDates (getWeekDates (seoul_today w)), Launch]"
  define h1 where "h1 = cleanupOldEmailHistory h (cleanup_now w)"
  define ts where "ts = searchTasks_of g (getWeekDates (seoul_today w))"
  obtain h2 r2 log2 where rb: "run_batches w K (batches K ts) 0 (h1, log1) = (h2, r2, log2)"
    by (cases "run_batches w K (batches K ts) 0 (h1, log1)")
  from run_batches_log [OF rb] obtain L where
    L: "log2 = log1 @ L" "\<forall>x \<in> set L. \<exists>b e. x = Task b e"
    by blast
  have no: "\<forall>b e. Task b e \<notin> set log1"
    by (simp add: log1_def)
  then have "batches_done K 0 log1"
    by (simp add: batches_done_def barrier_no_tasks)
  from run_batches_barrier [OF K _ this rb] have b2: "barrier K log2"
    by simp
  have b1: "barrier K log1"
    using no by (rule barrier_no_tasks)
  from run have cases: "log = log1 \<or> log = log2
      \<or> log = log2 @ [CloseBrowser] \<or> log = log2 @ [CycleCompleted c, CloseBrowser]"
    unfolding cycle_result [OF K] Let_def
    using rb by (auto simp: log1_def h1_def ts_def split: if_splits completion.splits)
  show "barrier K log"
    using cases b1 b2 barrier_append_other [OF b2, of "[CloseBrowser]"]
      barrier_append_other [OF b2, of "[CycleCompleted c, CloseBrowser]"]
    by auto
  show "\<exists>L. log = [Cleanup (cleanup_now w), WeekDates (getWeekDates (seoul_today w)), Launch] @ L
      \<and> (\<forall>x \<in> set L. (\<exists>b e. x = Task b e) \<or> x = CycleCompleted c \<or> x = CloseBrowser)"
    using cases
  proof (elim disjE)
    assume "log = log1"
    then show ?thesis by (intro exI [of _ "[]"]) (simp add: log1_def)
  next
    assume "log = log2"
    then show ?thesis using L by (intro exI [of _ L]) (simp add: log1_def)
  next
    assume "log = log2 @ [CloseBrowser]"
    then show ?thesis using L by (intro exI [of _ "L @ [CloseBrowser]"]) (auto simp: log1_def)
  next
    assume "log = log2 @ [CycleCompleted c, CloseBrowser]"
    then show ?thesis
      using L by (intro exI [of _ "L @ [CycleCompleted c, CloseBrowser]"]) (auto simp: log1_def)
  qed
qed


subsection \<open>The batches and the barrier between them\<close>

lemma batches_but_last_full:
  "0 < K \<Longrightarrow> Suc j < length (batches K xs) \<Longrightarrow> length (batches K xs ! j) = K"
proof (induction K xs arbitrary: j rule: batches.induct)
  case (1 K xs)
  from 1(3) have ne: "xs \<noteq> []" by auto
  note bs = batches_Cons [OF 1(2) ne]
  show ?case
  proof (cases j)
    case 0
    with 1(3) bs obtain c rest where "batches K (drop K xs) = c # rest"
      by (cases "batches K (drop K xs)") auto
    with bs have "batches K xs = take K xs # c # rest" by simp
    from batches_full [OF 1(2) this] 0 bs show ?thesis by simp
  next
    case (Suc j')
    with 1(3) bs have "Suc j' < length (batches K (drop K xs))" by simp
    from 1(1) [OF _ 1(2) this] ne 1(2) Suc bs show ?thesis by simp
  qed
qed

text \<open>
  C4. With a limit \<open>K > 0\<close> (the program's is 7) the loop over the task list runs the
  batches \<^term>\<open>batches K ts\<close> one after the other: consecutive pieces of the list, none
  empty, each of at most \<open>K\<close> tasks and all but the last of exactly \<open>K\<close> (7 tasks with
  \<open>K = 3\<close>: sizes 3, 3, 1). In the log of a cycle, wherever a task of a batch is started,
  every task of every earlier batch has resolved before that point and logs nothing
  after it: its retries, its waits and its last delay are over.
\<close>

theorem batch_scheduler:
  "0 < K \<Longrightarrow>
     CONCURRENT_LIMIT = 7
   \<and> batch_loop K w ts 0 s = Some (run_batches w K (batches K ts) 0 s)
   \<and> concat (batches K ts) = ts
   \<and> (\<forall>b \<in> set (batches K ts). b \<noteq> [] \<and> length b \<le> K)
   \<and> (\<forall>j. Suc j < length (batches K ts) \<longrightarrow> length (batches K ts ! j) = K)
   \<and> map length (batches 3 [t1, t2, t3, t4, t5, t6, t7]) = [3, 3, 1]
   \<and> (\<forall>h' r log. runCrawlingCycle K w g c h = Some (h', r, log) \<longrightarrow> barrier K log)"
proof -
  assume K: "0 < K"
  have "batch_loop K w ts 0 s = Some (run_batches w K (batches K ts) 0 s)"
    using batch_loop_batches [OF K, of w ts 0 s] by simp
  moreover have "map length (batches 3 [t1, t2, t3, t4, t5, t6, t7]) = [3, 3, 1]"
    by (simp add: batches.simps)
  moreover have "\<forall>b \<in> set (batches K ts). b \<noteq> [] \<and> length b \<le> K"
    using batches_sizes [OF K] by blast
  moreover have "\<forall>h' r log. runCrawlingCycle K w g c h = Some (h', r, log) \<longrightarrow> barrier K log"
    using cycle_log(2) [OF K] by blast
  ultimately show ?thesis
    using concat_batches [OF K, of ts] batches_but_last_full [OF K, of _ ts]
    by (simp add: CONCURRENT_LIMIT_def)
qed

text \<open>The example world with \<open>K = 3\<close>: the cycle returns with \<^const>\<open>example_log\<close>.\<close>

theorem batch_scheduler_witness:
  "(0::nat) < 3
   \<and> runCrawlingCycle 3 example_world [\<lparr>idx = ''5''\<rparr>] 1 [(''old'', 1000)] =
       Some ([], Returned, example_log)
   \<and> barrier 3 example_log
   \<and> map length (batches 3 (searchTasks_of [\<lparr>idx = ''5''\<rparr>]
         (getWeekDates \<lparr>year = 2024, month = 2, day = 26\<rparr>))) = [3, 3, 1]"
proof -
  note b = batch_scheduler [where K = 3 and w = example_world and g = "[\<lparr>idx = ''5''\<rparr>]"
      and c = 1 and h = "[(''old'', 1000)]", THEN conjunct2, THEN conjunct2, THEN conjunct2,
      THEN conjunct2, THEN conjunct2, THEN conjunct2, rule_format, OF _ example_cycle]
  have "barrier 3 example_log"
    using b by simp
  moreover have "map length (batches 3 (searchTasks_of [\<lparr>idx = ''5''\<rparr>]
         (getWeekDates \<lparr>year = 2024, month = 2, day = 26\<rparr>))) = [3, 3, 1]"
    by (simp add: example_tasks batches.simps)
  ultimately show ?thesis
    using example_cycle by simp
qed

subsection \<open>What a cycle does to the history\<close>



lemma recorded_Nil [simp]: "recorded [] h = h"
  by (simp add: recorded_def)







subsection \<open>The cleanup of the history\<close>





subsection \<open>The page of a task, and what escapes a task\<close>











subsection \<open>Notifications and the cooldown\<close>

lemma notify_only_if_canSend:
  assumes "resume ps task now h Opening = (h', st, es)" and "Notify u n \<in> set es"
  shows "canSendEmail h now (url task) \<and> u = url task \<and> h' = h \<and> (\<exists>out. st = Sending out)"
proof -
  from assms have nr: "\<not> rejects ps NewPage"
    by (auto split: if_splits)
  with assms(1) have ap: "after_page ps task now h = (h', st, es)"
    by simp
  obtain es0 r where p: "probe_page ps task = (es0, r)"
    by (cases "probe_page ps task")
  have "\<forall>e \<in> set es0. page_event e"
    using probe_page_events [of ps task] p by (simp add: only_def)
  then have no: "Notify u n \<notin> set es0"
    by auto
  show ?thesis
  proof (cases r)
    case None
    with ap p no assms(2) show ?thesis
      by (auto simp: after_page_def)
  next
    case (Some v)
    with ap p no assms(2) show ?thesis
      by (cases v) (auto simp: after_page_def split: if_splits)
  qed
qed

lemma notifications_page:
  "probe_page ps task = (es, r) \<Longrightarrow> notifications es = []"
proof -
  assume p: "probe_page ps task = (es, r)"
  have "\<forall>e \<in> set es. page_event e"
    using probe_page_events [of ps task] p by (simp add: only_def)
  moreover have "\<not> is_notify e" if "page_event e" for e
    using that by (cases e) simp_all
  ultimately have "\<forall>e \<in> set es. \<not> is_notify e"
    by blast
  then show ?thesis
    by (simp add: notifications_def filter_empty_conv)
qed

lemma available_sends:
  assumes "no_rejects ps" and "snd (probe_page ps task) = Some (Redirected n)"
    and "canSendEmail h tc (url task)"
  shows "checkReservation ps task tc tr h =
      (recordEmailSent h tr (url task), Finished (Available n), snd (snd (checkReservation ps task tc tr h)))"
    and "notifications (snd (snd (checkReservation ps task tc tr h))) =
      [Notify (url task) (email_name task n)]"
proof -
  obtain es where p: "probe_page ps task = (es, Some (Redirected n))"
    using assms(2) by (cases "probe_page ps task") auto
  note c = checkReservation_send [OF assms(1) p assms(3), of tr]
  show "checkReservation ps task tc tr h =
      (recordEmailSent h tr (url task), Finished (Available n), snd (snd (checkReservation ps task tc tr h)))"
    using c by simp
  show "notifications (snd (snd (checkReservation ps task tc tr h))) =
      [Notify (url task) (email_name task n)]"
    using c notifications_page [OF p] by (simp add: notifications_def)
qed

lemma available_skips:
  assumes "no_rejects ps" and "snd (probe_page ps task) = Some (Redirected n)"
    and "\<not> canSendEmail h tc (url task)"
  shows "checkReservation ps task tc tr h =
      (h, Finished (Available n), snd (snd (checkReservation ps task tc tr h)))"
    and "notifications (snd (snd (checkReservation ps task tc tr h))) = []"
proof -
  obtain es where p: "probe_page ps task = (es, Some (Redirected n))"
    using assms(2) by (cases "probe_page ps task") auto
  note c = checkReservation_skip [OF assms(1) p assms(3), of tr]
  show "checkReservation ps task tc tr h =
      (h, Finished (Available n), snd (snd (checkReservation ps task tc tr h)))"
    using c by simp
  show "notifications (snd (snd (checkReservation ps task tc tr h))) = []"
    using c notifications_page [OF p] by (simp add: notifications_def)
qed

lemma bookable_redirects:
  "snd (probe_page bookable_page task) = Some (Redirected (of_ascii ''Room A''))"
  using probe_page_engaged [OF bookable_page_facts, of task]
  by (simp add: alertAppeared_def bookingName_of_def bookable_page_def blank_page_def)

lemma send_fails_redirects:
  "snd (probe_page send_fails_page task) = Some (Redirected (of_ascii ''Room A''))"
  by (simp add: probe_page_def reserve_loop.simps non_member_loop.simps evaluate_non_member_def
      send_fails_page_def bookable_page_def blank_page_def bind_def await_def emit_def
      alertAppeared_def
      maxReserveButtonAttempts_def maxNonMemberButtonAttempts_def is_non_member_button_def
      RESERVE_BUTTON_TEXT_def NON_MEMBER_TEXT_def RESERVE_TEXT_def of_ascii_def ret_def)

lemma available_send_fails:
  assumes "\<not> rejects ps NewPage" "\<not> rejects ps ClosePage" "rejects ps SendMail"
    and "snd (probe_page ps task) = Some (Redirected n)"
    and "canSendEmail h tc (url task)"
  shows "fst (checkReservation ps task tc tr h) = h"
    and "fst (snd (checkReservation ps task tc tr h)) = Finished (Available n)"
    and "notifications (snd (snd (checkReservation ps task tc tr h))) =
      [Notify (url task) (email_name task n)]"
proof -
  obtain es where p: "probe_page ps task = (es, Some (Redirected n))"
    using assms(4) by (cases "probe_page ps task") auto
  have c: "checkReservation ps task tc tr h =
      (h, Finished (Available n),
       Call NewPage # es @ [LogOutcome (Available n), Notify (url task) (email_name task n),
         Call SendMail, LogOutcome Caught, Call ClosePage, Delay 1000, Resolved])"
    using assms(1,2,3,5) p by (simp add: checkReservation_def after_page_def)
  show "fst (checkReservation ps task tc tr h) = h"
    and "fst (snd (checkReservation ps task tc tr h)) = Finished (Available n)"
    using c by simp_all
  show "notifications (snd (snd (checkReservation ps task tc tr h))) =
      [Notify (url task) (email_name task n)]"
    using c notifications_page [OF p] by (simp add: notifications_def)
qed

text \<open>
  C1 (as the code has it). The segment of a probe that finds the slot available calls
  \<^verbatim>\<open>sendEmail\<close> only if \<^const>\<open>canSendEmail\<close> holds for the task's url at that moment; it
  leaves the history as it is and suspends the task at the \<^verbatim>\<open>await\<close> of the send. The
  send is recorded by the next segment, with the clock value of that segment, and only
  when the send did not fail. For three probes of the same url that run one after the
  other and all find the slot available, with no rejecting call: if the first is
  permitted and records at a clock value \<open>tr1\<close> other than \<open>0\<close>, a second one that checks
  less than the cooldown after \<open>tr1\<close> does not notify and changes nothing, and a third one
  that checks at least the cooldown after \<open>tr1\<close> notifies again.
\<close>

theorem notify_once_per_cooldown:
  "(resume ps task now h Opening = (h', st, es) \<and> Notify u n \<in> set es \<longrightarrow>
      canSendEmail h now (url task) \<and> u = url task \<and> h' = h \<and> (\<exists>out. st = Sending out))
   \<and> resume ps task now' h (Sending out) =
       (if rejects ps SendMail then (h, Closing out, [LogOutcome Caught, Call ClosePage])
        else (recordEmailSent h now' (url task), Closing out,
              [Recorded (url task) now', Call ClosePage]))
   \<and> (no_rejects ps1 \<and> no_rejects ps2 \<and> no_rejects ps3
        \<and> url task2 = url task1 \<and> url task3 = url task1
        \<and> snd (probe_page ps1 task1) = Some (Redirected n1)
        \<and> snd (probe_page ps2 task2) = Some (Redirected n2)
        \<and> snd (probe_page ps3 task3) = Some (Redirected n3)
        \<and> canSendEmail h0 tc1 (url task1) \<and> tr1 \<noteq> 0
        \<and> tc2 - tr1 < EMAIL_COOLDOWN_MS \<and> tc3 - tr1 \<ge> EMAIL_COOLDOWN_MS \<longrightarrow>
        (case checkReservation ps1 task1 tc1 tr1 h0 of (h1, s1, e1) \<Rightarrow>
         case checkReservation ps2 task2 tc2 tr2 h1 of (h2, s2, e2) \<Rightarrow>
         case checkReservation ps3 task3 tc3 tr3 h2 of (h3, s3, e3) \<Rightarrow>
           h1 = recordEmailSent h0 tr1 (url task1)
           \<and> notifications e1 = [Notify (url task1) (email_name task1 n1)]
           \<and> notifications e2 = [] \<and> h2 = h1
           \<and> notifications e3 = [Notify (url task3) (email_name task3 n3)]))"
proof -
  have one: "canSendEmail h now (url task) \<and> u = url task \<and> h' = h \<and> (\<exists>out. st = Sending out)"
    if "resume ps task now h Opening = (h', st, es)" "Notify u n \<in> set es"
    using notify_only_if_canSend [OF that] .
  have three: "case checkReservation ps1 task1 tc1 tr1 h0 of (h1, s1, e1) \<Rightarrow>
         case checkReservation ps2 task2 tc2 tr2 h1 of (h2, s2, e2) \<Rightarrow>
         case checkReservation ps3 task3 tc3 tr3 h2 of (h3, s3, e3) \<Rightarrow>
           h1 = recordEmailSent h0 tr1 (url task1)
           \<and> notifications e1 = [Notify (url task1) (email_name task1 n1)]
           \<and> notifications e2 = [] \<and> h2 = h1
           \<and> notifications e3 = [Notify (url task3) (email_name task3 n3)]"
    if nr: "no_rejects ps1" "no_rejects ps2" "no_rejects ps3"
      and u: "url task2 = url task1" "url task3 = url task1"
      and av: "snd (probe_page ps1 task1) = Some (Redirected n1)"
        "snd (probe_page ps2 task2) = Some (Redirected n2)"
        "snd (probe_page ps3 task3) = Some (Redirected n3)"
      and can: "canSendEmail h0 tc1 (url task1)"
      and t: "tr1 \<noteq> 0" "tc2 - tr1 < EMAIL_COOLDOWN_MS" "tc3 - tr1 \<ge> EMAIL_COOLDOWN_MS"
  proof -
    define h1 where "h1 = recordEmailSent h0 tr1 (url task1)"
    note first = available_sends [OF nr(1) av(1) can, of tr1, folded h1_def]
    have blocked: "\<not> canSendEmail h1 tc2 (url task2)"
      unfolding h1_def u(1) by (rule canSendEmail_blocked [OF t(1,2)])
    note second = available_skips [OF nr(2) av(2) blocked, of tr2]
    have again: "canSendEmail h1 tc3 (url task3)"
      unfolding h1_def u(2) by (rule canSendEmail_elapsed [OF t(3)])
    note third = available_sends [OF nr(3) av(3) again, of tr3]
    show ?thesis
      apply (subst first(1))
      apply (simp only: prod.case)
      apply (subst second(1))
      apply (simp only: prod.case)
      apply (subst third(1))
      apply (simp only: prod.case)
      using first(2) second(2) third(2) apply (simp add: h1_def)
      done
  qed
  show ?thesis
    using one three by (simp del: resume.simps(1)) blast
qed

text \<open>The bookable page probed at 1 s, 60 s and 1802 s: one notification, none, one.\<close>

theorem notify_once_per_cooldown_witness:
  "no_rejects bookable_page
   \<and> snd (probe_page bookable_page example_task) = Some (Redirected (of_ascii ''Room A''))
   \<and> canSendEmail [] 1000 (url example_task) \<and> (2000::int) \<noteq> 0
   \<and> (60000::int) - 2000 < EMAIL_COOLDOWN_MS \<and> (1802000::int) - 2000 \<ge> EMAIL_COOLDOWN_MS
   \<and> (case checkReservation bookable_page example_task 1000 2000 [] of (h1, s1, e1) \<Rightarrow>
       case checkReservation bookable_page example_task 60000 61000 h1 of (h2, s2, e2) \<Rightarrow>
       case checkReservation bookable_page example_task 1802000 1803000 h2 of (h3, s3, e3) \<Rightarrow>
         h1 = [(url example_task, 2000)]
         \<and> notifications e1 = [Notify (url example_task) (email_name example_task (of_ascii ''Room A''))]
         \<and> notifications e2 = [] \<and> h2 = h1
         \<and> notifications e3 = [Notify (url example_task) (email_name example_task (of_ascii ''Room A''))])"
proof -
  have can: "canSendEmail [] 1000 (url example_task)"
    by (simp add: canSendEmail_def)
  have t: "(2000::int) \<noteq> 0" "(60000::int) - 2000 < EMAIL_COOLDOWN_MS"
    "(1802000::int) - 2000 \<ge> EMAIL_COOLDOWN_MS"
    by (simp_all add: EMAIL_COOLDOWN_MS_def)
  have hyp: "no_rejects bookable_page \<and> no_rejects bookable_page \<and> no_rejects bookable_page
        \<and> url example_task = url example_task \<and> url example_task = url example_task
        \<and> snd (probe_page bookable_page example_task) = Some (Redirected (of_ascii ''Room A''))
        \<and> snd (probe_page bookable_page example_task) = Some (Redirected (of_ascii ''Room A''))
        \<and> snd (probe_page bookable_page example_task) = Some (Redirected (of_ascii ''Room A''))
        \<and> canSendEmail [] 1000 (url example_task) \<and> (2000::int) \<noteq> 0
        \<and> (60000::int) - 2000 < EMAIL_COOLDOWN_MS \<and> (1802000::int) - 2000 \<ge> EMAIL_COOLDOWN_MS"
    using bookable_page_facts(1) bookable_redirects can t by simp
  note w = notify_once_per_cooldown [where ?ps1.0 = bookable_page and ?ps2.0 = bookable_page
      and ?ps3.0 = bookable_page and ?task1.0 = example_task and ?task2.0 = example_task
      and ?task3.0 = example_task and ?n1.0 = "of_ascii ''Room A''" and ?n2.0 = "of_ascii ''Room A''"
      and ?n3.0 = "of_ascii ''Room A''" and ?h0.0 = "[]" and ?tc1.0 = 1000 and ?tr1.0 = 2000
      and ?tc2.0 = 60000 and ?tr2.0 = 61000 and ?tc3.0 = 1802000 and ?tr3.0 = 1803000,
      THEN conjunct2, THEN conjunct2, rule_format, OF hyp]
  have r: "recordEmailSent [] 2000 (url example_task) = [(url example_task, 2000)]"
    by (simp add: recordEmailSent_def)
  show ?thesis
    using w bookable_page_facts(1) bookable_redirects can t
    by (simp add: r split: prod.splits)
qed

text \<open>
  Two things the code does. First, after the segment that checks the cooldown and calls
  \<^verbatim>\<open>sendEmail\<close>, the task is suspended at the \<^verbatim>\<open>await\<close> with nothing recorded: the history
  still permits a send for its url. Second, when the send fails nothing is recorded at
  all, so a second probe of the same url two seconds later notifies again.
\<close>

theorem unrecorded_send_counterexample:
  "fst (resume bookable_page example_task 1000 [] Opening) = []
   \<and> fst (snd (resume bookable_page example_task 1000 [] Opening)) =
       Sending (Available (of_ascii ''Room A''))
   \<and> canSendEmail (fst (resume bookable_page example_task 1000 [] Opening)) 1000 (url example_task)
   \<and> (3000::int) - 2000 < EMAIL_COOLDOWN_MS
   \<and> (case checkReservation send_fails_page example_task 1000 2000 [] of (h1, s1, e1) \<Rightarrow>
       case checkReservation bookable_page example_task 3000 4000 h1 of (h2, s2, e2) \<Rightarrow>
         h1 = []
         \<and> notifications e1 = [Notify (url example_task) (email_name example_task (of_ascii ''Room A''))]
         \<and> notifications e2 = [Notify (url example_task) (email_name example_task (of_ascii ''Room A''))])"
proof -
  have can: "canSendEmail [] t (url example_task)" for t
    by (simp add: canSendEmail_def)
  obtain es where p: "probe_page bookable_page example_task = (es, Some (Redirected (of_ascii ''Room A'')))"
    using bookable_redirects [of example_task] by (cases "probe_page bookable_page example_task") auto
  have nr: "\<not> rejects bookable_page NewPage"
    using bookable_page_facts(1) by (simp add: no_rejects_def)
  have seg: "resume bookable_page example_task 1000 [] Opening =
      ([], Sending (Available (of_ascii ''Room A'')),
       es @ [LogOutcome (Available (of_ascii ''Room A'')),
             Notify (url example_task) (email_name example_task (of_ascii ''Room A'')), Call SendMail])"
    using p nr can by (simp add: after_page_def)
  have rj: "\<not> rejects send_fails_page NewPage" "\<not> rejects send_fails_page ClosePage"
    "rejects send_fails_page SendMail"
    by (simp_all add: send_fails_page_def)
  note first = available_send_fails [OF rj send_fails_redirects can [of 1000], where tr = 2000]
  note second = available_sends [OF bookable_page_facts(1) bookable_redirects can [of 3000],
      where tr = 4000]
  have "case checkReservation send_fails_page example_task 1000 2000 [] of (h1, s1, e1) \<Rightarrow>
       case checkReservation bookable_page example_task 3000 4000 h1 of (h2, s2, e2) \<Rightarrow>
         h1 = []
         \<and> notifications e1 = [Notify (url example_task) (email_name example_task (of_ascii ''Room A''))]
         \<and> notifications e2 = [Notify (url example_task) (email_name example_task (of_ascii ''Room A''))]"
    using first second by (auto split: prod.splits)
  then show ?thesis
    using seg can by (simp add: EMAIL_COOLDOWN_MS_def)
qed

section \<open>Properties of the main loop\<close>

subsection \<open>A fair event loop settles every cycle\<close>










subsection \<open>The passes of the loop\<close>










end
